theory Spec2Isabelle
  imports Main "HOL-Library.Word" "HOL-Library.Signed_Division"
begin

unbundle bit_operations_syntax

section \<open>Machine types of \<^verbatim>\<open>avi_mjpeg.cc\<close>\<close>

text \<open>
  The source is C++ over \<^verbatim>\<open>uchar\<close> buffers. A \<^verbatim>\<open>uchar\<close> is an 8-bit word, an
  \<^verbatim>\<open>int\<close> a 32-bit word read as two's complement by \<open>sint\<close>, a \<^verbatim>\<open>uint\<close> or
  \<^verbatim>\<open>JDIMENSION\<close> a 32-bit word read by \<open>unat\<close>, and \<^verbatim>\<open>size_t\<close> and
  \<^verbatim>\<open>long\<close> are 64 bits wide. Where the field transforms index a buffer, a
  \<^verbatim>\<open>size_t\<close> value is a natural number below \<open>2 ^ 64\<close> and every operation on it has
  its reduction modulo \<open>2 ^ 64\<close> written out. A product of two \<^verbatim>\<open>int\<close> values that
  leaves the range of the type wraps around, as it does on the two's-complement machines
  the file is built for (the language leaves that overflow undefined).
\<close>

type_synonym uchar = "8 word"
type_synonym c_int = "32 word"
type_synonym c_uint = "32 word"
type_synonym c_long = "64 word"
type_synonym size_t = "64 word"

datatype fault = Out_of_bounds

definition INT_MAX :: int where
  "INT_MAX = 2147483647"

definition INT_MIN :: int where
  "INT_MIN = - 2147483648"

definition SIZE_MOD :: nat where
  "SIZE_MOD = 2 ^ 64"

definition int_wrap :: "int \<Rightarrow> int" where
  \<comment> \<open>The value of type \<^verbatim>\<open>int\<close> congruent to \<open>x\<close> modulo \<open>2 ^ 32\<close>.\<close>
  "int_wrap x = (x - INT_MIN) mod 2 ^ 32 + INT_MIN"

definition int_mul :: "int \<Rightarrow> int \<Rightarrow> int" where
  \<comment> \<open>\<^verbatim>\<open>a * b\<close> on two \<^verbatim>\<open>int\<close> operands.\<close>
  "int_mul a b = int_wrap (a * b)"

definition size_of_int :: "int \<Rightarrow> nat" where
  \<comment> \<open>The conversion of an \<^verbatim>\<open>int\<close> to \<^verbatim>\<open>size_t\<close>.\<close>
  "size_of_int x = nat (x mod int SIZE_MOD)"

definition size_add :: "nat \<Rightarrow> nat \<Rightarrow> nat" where
  "size_add a b = (a + b) mod SIZE_MOD"

definition size_mul :: "nat \<Rightarrow> nat \<Rightarrow> nat" where
  "size_mul a b = (a * b) mod SIZE_MOD"

section \<open>The field transform\<close>

text \<open>
  A pixel buffer is the list of its bytes. \<^verbatim>\<open>memcpy(&to[d], &from[s], n)\<close> on two
  distinct buffers replaces the \<open>n\<close> bytes of \<open>to\<close> from offset \<open>d\<close> by the \<open>n\<close> bytes of
  \<open>from\<close> from offset \<open>s\<close>; a copy that leaves either buffer is a fault.
\<close>

definition memcpy :: "uchar list \<Rightarrow> nat \<Rightarrow> uchar list \<Rightarrow> nat \<Rightarrow> nat \<Rightarrow> fault + uchar list" where
  "memcpy to d from s n =
     (if d + n \<le> length to \<and> s + n \<le> length from
      then Inr (take d to @ take n (drop s from) @ drop (d + n) to)
      else Inl Out_of_bounds)"

text \<open>
  \<^verbatim>\<open>
  static void interlace(uchar *to, uchar *from, int width, int height)
  {
    size_t i, rowstride = width * 3;
    for (i = 0; i < height; i++) {
      if (i & 1) {
        memcpy(&to[i * rowstride], &from[(i / 2 + height / 2) * rowstride], rowstride);
      }
      else {
        memcpy(&to[i * rowstride], &from[(i / 2) * rowstride], rowstride);
      }
    }
  }
  \<close>
  The loop counter is a \<^verbatim>\<open>size_t\<close>, so \<^verbatim>\<open>i < height\<close> compares it with the converted
  \<^verbatim>\<open>height\<close>, and \<^verbatim>\<open>height / 2\<close> is the truncating division of \<^verbatim>\<open>int\<close>.
\<close>

function interlace_loop ::
  "nat \<Rightarrow> nat \<Rightarrow> int \<Rightarrow> uchar list \<Rightarrow> uchar list \<Rightarrow> fault + uchar list" where
  "interlace_loop i rowstride height to from =
     (if i < size_of_int height then
        (case (if i mod 2 \<noteq> 0
               then memcpy to (size_mul i rowstride) from
                      (size_mul (size_add (i div 2) (size_of_int (height sdiv 2))) rowstride)
                      rowstride
               else memcpy to (size_mul i rowstride) from
                      (size_mul (i div 2) rowstride) rowstride) of
           Inl e \<Rightarrow> Inl e
         | Inr to' \<Rightarrow> interlace_loop (i + 1) rowstride height to' from)
      else Inr to)"
  by pat_completeness auto
termination
  by (relation "measure (\<lambda>(i, rowstride, height, to, from). size_of_int height - i)") auto

definition interlace :: "uchar list \<Rightarrow> uchar list \<Rightarrow> c_int \<Rightarrow> c_int \<Rightarrow> fault + uchar list" where
  "interlace to from width height =
     (let rowstride = size_of_int (int_mul (sint width) 3)
      in interlace_loop 0 rowstride (sint height) to from)"

text \<open>
  \<^verbatim>\<open>
  static void deinterlace(int odd, uchar *to, uchar *from, int width, int height)
  {
    size_t i, rowstride = width * 3;
    for (i = 0; i < height; i++) {
      if ((i & 1) == odd) {
        memcpy(&to[(i / 2 + height / 2) * rowstride], &from[i * rowstride], rowstride);
      }
      else {
        memcpy(&to[(i / 2) * rowstride], &from[i * rowstride], rowstride);
      }
    }
  }
  \<close>
\<close>

function deinterlace_loop ::
  "nat \<Rightarrow> int \<Rightarrow> nat \<Rightarrow> int \<Rightarrow> uchar list \<Rightarrow> uchar list \<Rightarrow> fault + uchar list" where
  "deinterlace_loop i oddf rowstride height to from =
     (if i < size_of_int height then
        (case (if i mod 2 = size_of_int oddf
               then memcpy to
                      (size_mul (size_add (i div 2) (size_of_int (height sdiv 2))) rowstride)
                      from (size_mul i rowstride) rowstride
               else memcpy to (size_mul (i div 2) rowstride)
                      from (size_mul i rowstride) rowstride) of
           Inl e \<Rightarrow> Inl e
         | Inr to' \<Rightarrow> deinterlace_loop (i + 1) oddf rowstride height to' from)
      else Inr to)"
  by pat_completeness auto
termination
  by (relation "measure (\<lambda>(i, oddf, rowstride, height, to, from). size_of_int height - i)") auto

definition deinterlace ::
  "c_int \<Rightarrow> uchar list \<Rightarrow> uchar list \<Rightarrow> c_int \<Rightarrow> c_int \<Rightarrow> fault + uchar list" where
  "deinterlace oddf to from width height =
     (let rowstride = size_of_int (int_mul (sint width) 3)
      in deinterlace_loop 0 (sint oddf) rowstride (sint height) to from)"

section \<open>The codec as this file sees it\<close>

text \<open>
  libjpeg is a black box behind this file. What the file does is recorded as the list
  of its calls into the library and of the adapter operations the library calls back,
  together with the one piece of state of the file itself, the static counter
  \<^verbatim>\<open>numbytes\<close>. Pointers are 64-bit addresses.
\<close>

type_synonym addr = "64 word"

text \<open>
  Modelled from the spec: the constants of \<^verbatim>\<open>jpeglib.h\<close> that the file names, as
  constructors; the header is not among the sources. \<^verbatim>\<open>JPEG_APP0\<close> is the application
  marker and \<^verbatim>\<open>JPEG_COM\<close> the comment marker of the spec.
\<close>

datatype marker_code = JPEG_APP0 | JPEG_COM

datatype colorspace = JCS_RGB | JCS_YCbCr

datatype dct_method = JDCT_IFAST

text \<open>
  The calls, in the order of the source. \<open>Dinfo_output\<close> stands for the two assignments
  \<^verbatim>\<open>dinfo.out_color_space = JCS_RGB; dinfo.dct_method = JDCT_IFAST;\<close> and the four
  \<open>Cinfo\<close> calls for the assignments to \<^verbatim>\<open>cinfo\<close>: the image geometry with the input
  components and colour space, the four \<^verbatim>\<open>sent_table\<close> flags (both DC tables, then
  both AC tables), the four assignments to \<^verbatim>\<open>comp_info\<close> in their order (id of component
  0, its vertical sampling factor, ids of components 1 and 2), and
  \<^verbatim>\<open>write_JFIF_header\<close>.
  \<open>Src_build\<close>, \<open>Dest_build\<close>, \<open>Src_term\<close> and \<open>Dest_term\<close> are the adapter operations; a
  teardown records the bytes left in the adapter and the counter as it leaves it.
\<close>

datatype jpeg_call =
    Jpeg_create_decompress
  | Src_build addr size_t
  | Jpeg_read_header bool
  | Std_huff_tables
  | Dinfo_output colorspace dct_method
  | Jpeg_start_decompress
  | Jpeg_read_scanlines addr nat
  | Jpeg_finish_decompress
  | Src_term size_t size_t
  | Jpeg_destroy_decompress
  | Jpeg_create_compress
  | Dest_build addr size_t
  | Cinfo_image c_uint c_uint c_int colorspace
  | Jpeg_set_defaults
  | Jpeg_set_colorspace colorspace
  | Jpeg_set_quality c_int bool
  | Cinfo_sent_tables bool bool bool bool
  | Cinfo_components c_int c_int c_int c_int
  | Cinfo_write_JFIF_header bool
  | Jpeg_start_compress bool
  | Jpeg_write_marker marker_code "uchar list" nat
  | Jpeg_write_scanlines addr nat
  | Jpeg_finish_compress
  | Dest_term size_t size_t
  | Jpeg_destroy_compress

record jstate =
  numbytes :: size_t
  calls :: "jpeg_call list"

definition call :: "jpeg_call \<Rightarrow> jstate \<Rightarrow> jstate" where
  "call c s = s\<lparr>calls := calls s @ [c]\<rparr>"

subsection \<open>Compression to memory\<close>

record jpeg_destination_mgr =
  next_output_byte :: addr
  free_in_buffer :: size_t

text \<open>
  \<^verbatim>\<open>
  static void jpegmemdestmgr_build(j_compress_ptr cinfo, uchar *buffer, size_t bufsize)
  {
    ...
    cinfo->dest->next_output_byte = buffer;
    cinfo->dest->free_in_buffer = bufsize;
    numbytes = bufsize;
  }
  \<close>
\<close>

definition jpegmemdestmgr_build :: "addr \<Rightarrow> size_t \<Rightarrow> jstate \<Rightarrow> jpeg_destination_mgr \<times> jstate" where
  "jpegmemdestmgr_build buffer bufsize s =
     (\<lparr>next_output_byte = buffer, free_in_buffer = bufsize\<rparr>,
      call (Dest_build buffer bufsize) (s\<lparr>numbytes := bufsize\<rparr>))"

text \<open>
  \<^verbatim>\<open>jpegmemdestmgr_init_destination\<close> does nothing, and
  \<^verbatim>\<open>jpegmemdestmgr_empty_output_buffer\<close> returns true and leaves the manager as it is.
\<close>

definition jpegmemdestmgr_init_destination :: "jpeg_destination_mgr \<Rightarrow> jpeg_destination_mgr" where
  "jpegmemdestmgr_init_destination dest = dest"

definition jpegmemdestmgr_empty_output_buffer :: "jpeg_destination_mgr \<Rightarrow> bool \<times> jpeg_destination_mgr" where
  "jpegmemdestmgr_empty_output_buffer dest = (True, dest)"

text \<open>
  \<^verbatim>\<open>numbytes -= cinfo->dest->free_in_buffer;\<close> The call records the bytes that were free
  at teardown and the counter as the teardown leaves it.
\<close>

definition jpegmemdestmgr_term_destination :: "jpeg_destination_mgr \<Rightarrow> jstate \<Rightarrow> jstate" where
  "jpegmemdestmgr_term_destination dest s =
     (let n = numbytes s - free_in_buffer dest
      in call (Dest_term (free_in_buffer dest) n) (s\<lparr>numbytes := n\<rparr>))"

text \<open>
  Modelled from the spec: \<^verbatim>\<open>jpeg_finish_compress\<close> of libjpeg, which is not among the
  sources. The spec pairs every adapter construction with one teardown: finishing a
  compression calls the destination's \<^verbatim>\<open>term_destination\<close>. The destination manager
  at that moment is what the library made of the one this file built; the library is a
  parameter \<open>enc\<close> that maps the built manager and the calls made so far to it.
\<close>

type_synonym encoder = "jpeg_destination_mgr \<Rightarrow> jpeg_call list \<Rightarrow> jpeg_destination_mgr"

definition jpeg_finish_compress :: "encoder \<Rightarrow> jpeg_destination_mgr \<Rightarrow> jstate \<Rightarrow> jstate" where
  "jpeg_finish_compress enc dest s =
     jpegmemdestmgr_term_destination (enc dest (calls s)) (call Jpeg_finish_compress s)"

text \<open>
  The marker array of \<^verbatim>\<open>Compress_JPEG\<close>: \<^verbatim>\<open>while (i < 60) { marker[i++] = v; }\<close>
\<close>

function fill_marker :: "nat \<Rightarrow> uchar \<Rightarrow> uchar list \<Rightarrow> nat \<times> uchar list" where
  "fill_marker i v marker =
     (if i < 60 then fill_marker (i + 1) v (marker[i := v]) else (i, marker))"
  by pat_completeness auto
termination
  by (relation "measure (\<lambda>(i, v, marker). 60 - i)") auto

text \<open>
  \<^verbatim>\<open>
  int i = 0;
  marker[i++] = 'A';
  marker[i++] = 'V';
  marker[i++] = 'I';
  marker[i++] = '1';
  marker[i++] = 0;
  while (i < 60) {
    marker[i++] = 32;
  }
  \<close>
\<close>

definition app0_marker :: "uchar list \<Rightarrow> uchar list" where
  "app0_marker marker =
     (let marker = marker[0 := of_char CHR ''A''];
          marker = marker[1 := of_char CHR ''V''];
          marker = marker[2 := of_char CHR ''I''];
          marker = marker[3 := of_char CHR ''1''];
          marker = marker[4 := 0]
      in snd (fill_marker 5 32 marker))"

definition com_marker :: "uchar list \<Rightarrow> uchar list" where
  "com_marker marker = snd (fill_marker 0 0 marker)"

text \<open>
  \<^verbatim>\<open>
  for (size_t y = 0; y < cinfo.image_height; y++) {
    jpeg_write_scanlines(&cinfo, (JSAMPARRAY)&inBuffer, 1);
    inBuffer += rowstride;
  }
  \<close>
  The bound is a 32-bit \<^verbatim>\<open>JDIMENSION\<close>, so the 64-bit counter reaches it without
  wrapping.
\<close>

function write_rows :: "nat \<Rightarrow> nat \<Rightarrow> size_t \<Rightarrow> addr \<Rightarrow> jstate \<Rightarrow> addr \<times> jstate" where
  "write_rows y image_height rowstride inBuffer s =
     (if y < image_height
      then write_rows (y + 1) image_height rowstride (inBuffer + rowstride)
             (call (Jpeg_write_scanlines inBuffer 1) s)
      else (inBuffer, s))"
  by pat_completeness auto
termination
  by (relation "measure (\<lambda>(y, image_height, rowstride, inBuffer, s). image_height - y)") auto

text \<open>
  \<^verbatim>\<open>Compress_JPEG(quality, outbuffer, inBuffer, width, height, bufsize)\<close>. The array
  \<^verbatim>\<open>marker\<close> is not initialised by the source; it starts here as sixty zero bytes, and
  \<open>app0_marker\<close> and \<open>com_marker\<close> assign every element before it is passed on.
  \<^verbatim>\<open>rowstride = cinfo.image_width * cinfo.input_components\<close> is a product of 32-bit
  unsigned values, widened to \<^verbatim>\<open>size_t\<close>.
\<close>

definition Compress_JPEG ::
  "encoder \<Rightarrow> c_int \<Rightarrow> addr \<Rightarrow> addr \<Rightarrow> c_int \<Rightarrow> c_int \<Rightarrow> size_t \<Rightarrow> jstate \<Rightarrow> jstate" where
  "Compress_JPEG enc quality outbuffer inBuffer width height bufsize s0 =
     (let marker = replicate 60 (0 :: uchar);
          s = call Jpeg_create_compress s0;
          (dest, s) = jpegmemdestmgr_build outbuffer bufsize s;
          image_width = (width :: c_uint);
          image_height = (height :: c_uint);
          input_components = (3 :: c_int);
          s = call (Cinfo_image image_width image_height input_components JCS_RGB) s;
          s = call Jpeg_set_defaults s;
          s = call (Jpeg_set_colorspace JCS_YCbCr) s;
          s = call (Jpeg_set_quality quality True) s;
          s = call (Cinfo_sent_tables True True True True) s;
          s = call (Cinfo_components 0 1 1 2) s;
          s = call (Cinfo_write_JFIF_header False) s;
          s = call (Jpeg_start_compress False) s;
          marker = app0_marker marker;
          s = call (Jpeg_write_marker JPEG_APP0 marker 60) s;
          marker = com_marker marker;
          s = call (Jpeg_write_marker JPEG_COM marker 60) s;
          rowstride = (ucast (image_width * input_components) :: size_t);
          (inBuffer, s) = write_rows 0 (unat image_height) rowstride inBuffer s;
          s = jpeg_finish_compress enc dest s
      in call Jpeg_destroy_compress s)"

subsection \<open>Decompression from memory\<close>

record jpeg_source_mgr =
  next_input_byte :: addr
  bytes_in_buffer :: size_t

text \<open>\<^verbatim>\<open>jpegmemsrcmgr_init_source\<close> does nothing.\<close>

definition jpegmemsrcmgr_init_source :: "jpeg_source_mgr \<Rightarrow> jpeg_source_mgr" where
  "jpegmemsrcmgr_init_source sm = sm"

definition jpegmemsrcmgr_build :: "addr \<Rightarrow> size_t \<Rightarrow> jstate \<Rightarrow> jpeg_source_mgr \<times> jstate" where
  "jpegmemsrcmgr_build buffer bufsize s =
     (\<lparr>next_input_byte = buffer, bytes_in_buffer = bufsize\<rparr>,
      call (Src_build buffer bufsize) (s\<lparr>numbytes := bufsize\<rparr>))"

text \<open>\<^verbatim>\<open>numbytes -= dinfo->src->bytes_in_buffer;\<close>\<close>

definition jpegmemsrcmgr_term_source :: "jpeg_source_mgr \<Rightarrow> jstate \<Rightarrow> jstate" where
  "jpegmemsrcmgr_term_source src s =
     (let n = numbytes s - bytes_in_buffer src
      in call (Src_term (bytes_in_buffer src) n) (s\<lparr>numbytes := n\<rparr>))"

text \<open>
  Modelled from the spec: the message code \<^verbatim>\<open>JWRN_JPEG_EOF\<close> and the marker byte
  \<^verbatim>\<open>JPEG_EOI\<close> of libjpeg, whose headers are not among the sources. The spec has the
  handler report a recoverable warning, not a fatal error, and write the end-of-image
  marker \<open>0xFF, 0xD9\<close>. What reaches the error manager is a warning or a fatal error.
\<close>

datatype message = JWRN_JPEG_EOF

datatype report = Warning message | Fatal message

definition JPEG_EOI :: uchar where
  "JPEG_EOI = 0xD9"

text \<open>
  The state the two callbacks of the source adapter work on: the bytes of memory by
  address, the source manager, and the reports handed to the error manager.
\<close>

record source_state =
  memory :: "addr \<Rightarrow> uchar"
  src :: jpeg_source_mgr
  reports :: "report list"

text \<open>
  Modelled from the spec: the macro \<^verbatim>\<open>WARNMS(cinfo, code)\<close> of libjpeg's
  \<^verbatim>\<open>jerror.h\<close>, which is not among the sources. It hands the code to the error manager
  as a warning and returns.
\<close>

definition WARNMS :: "message \<Rightarrow> source_state \<Rightarrow> source_state" where
  "WARNMS code s = s\<lparr>reports := reports s @ [Warning code]\<rparr>"

text \<open>
  \<^verbatim>\<open>
  static boolean jpegmemsrcmgr_fill_input_buffer(j_decompress_ptr dinfo)
  {
    uchar *buf = (uchar *)dinfo->src->next_input_byte - 2;
    WARNMS(dinfo, JWRN_JPEG_EOF);
    buf[0] = (JOCTET)0xFF;
    buf[1] = (JOCTET)JPEG_EOI;
    dinfo->src->next_input_byte = buf;
    dinfo->src->bytes_in_buffer = 2;
    return true;
  }
  \<close>
\<close>

definition jpegmemsrcmgr_fill_input_buffer :: "source_state \<Rightarrow> bool \<times> source_state" where
  "jpegmemsrcmgr_fill_input_buffer s =
     (let buf = next_input_byte (src s) - 2;
          s = WARNMS JWRN_JPEG_EOF s;
          s = s\<lparr>memory := (memory s)(buf := 0xFF)\<rparr>;
          s = s\<lparr>memory := (memory s)(buf + 1 := JPEG_EOI)\<rparr>;
          s = s\<lparr>src := (src s)\<lparr>next_input_byte := buf\<rparr>\<rparr>;
          s = s\<lparr>src := (src s)\<lparr>bytes_in_buffer := 2\<rparr>\<rparr>
      in (True, s))"

text \<open>
  \<^verbatim>\<open>
  static void jpegmemsrcmgr_skip_input_data(j_decompress_ptr dinfo, long skip_count)
  {
    if (dinfo->src->bytes_in_buffer < skip_count) {
      skip_count = dinfo->src->bytes_in_buffer;
    }
    dinfo->src->next_input_byte += skip_count;
    dinfo->src->bytes_in_buffer -= skip_count;
  }
  \<close>
  \<^verbatim>\<open>skip_count\<close> is a signed \<^verbatim>\<open>long\<close> of 64 bits, read by \<open>sint\<close>. The comparison has a
  \<^verbatim>\<open>size_t\<close> on its left, so the count is converted and the two are compared as
  unsigned values, which is \<open><\<close> on words.
\<close>

definition jpegmemsrcmgr_skip_input_data :: "jpeg_source_mgr \<Rightarrow> c_long \<Rightarrow> jpeg_source_mgr" where
  "jpegmemsrcmgr_skip_input_data sm skip_count =
     (let skip_count = (if bytes_in_buffer sm < skip_count then bytes_in_buffer sm else skip_count);
          sm = sm\<lparr>next_input_byte := next_input_byte sm + skip_count\<rparr>
      in sm\<lparr>bytes_in_buffer := bytes_in_buffer sm - skip_count\<rparr>)"

text \<open>
  Modelled from the spec: one pass of libjpeg over a source adapter, from
  \<^verbatim>\<open>jpeg_read_header\<close> to \<^verbatim>\<open>jpeg_finish_decompress\<close>; libjpeg is not among the
  sources. A pass reports whether the stream carried Huffman tables and the output
  geometry, and leaves the source manager in some state when finishing calls the
  source's \<^verbatim>\<open>term_source\<close>. The library is a parameter \<open>codec\<close> from the number of the
  pass and the source manager as built to such a report.
\<close>

record decode_pass =
  has_huff_tables :: bool
  output_width :: c_uint
  output_components :: c_int
  output_height :: c_uint
  src_at_finish :: jpeg_source_mgr

type_synonym decoder = "nat \<Rightarrow> jpeg_source_mgr \<Rightarrow> decode_pass"

text \<open>
  Modelled from the spec: \<^verbatim>\<open>jpeg_finish_decompress\<close> of libjpeg, which is not among the
  sources. Finishing a decompression calls the source's \<^verbatim>\<open>term_source\<close>, the one
  teardown the spec pairs with the construction of the adapter.
\<close>

definition jpeg_finish_decompress :: "jpeg_source_mgr \<Rightarrow> jstate \<Rightarrow> jstate" where
  "jpeg_finish_decompress sm s = jpegmemsrcmgr_term_source sm (call Jpeg_finish_decompress s)"

text \<open>
  \<^verbatim>\<open>
  for (size_t y = 0; y < dinfo.output_height; y++) {
    jpeg_read_scanlines(&dinfo, (JSAMPARRAY)&outBuffer, 1);
    outBuffer += rowstride;
  }
  \<close>
\<close>

function read_rows :: "nat \<Rightarrow> nat \<Rightarrow> size_t \<Rightarrow> addr \<Rightarrow> jstate \<Rightarrow> addr \<times> jstate" where
  "read_rows y n_rows rowstride outBuffer s =
     (if y < n_rows
      then read_rows (y + 1) n_rows rowstride (outBuffer + rowstride)
             (call (Jpeg_read_scanlines outBuffer 1) s)
      else (outBuffer, s))"
  by pat_completeness auto
termination
  by (relation "measure (\<lambda>(y, n_rows, rowstride, outBuffer, s). n_rows - y)") auto

text \<open>
  The two halves of a pass of \<^verbatim>\<open>Decode_JPEG\<close> once its adapter is built: the header,
  with the standard tables when the stream has none; then start, the scanline loop and
  finish. \<^verbatim>\<open>rowstride = dinfo.output_width * dinfo.output_components\<close> is a product of
  32-bit unsigned values, widened to \<^verbatim>\<open>size_t\<close>.
\<close>

definition decode_header :: "decode_pass \<Rightarrow> jstate \<Rightarrow> jstate" where
  "decode_header p s =
     (let s = call (Jpeg_read_header True) s
      in if has_huff_tables p then s else call Std_huff_tables s)"

definition decode_rows :: "decode_pass \<Rightarrow> addr \<Rightarrow> jstate \<Rightarrow> addr \<times> jstate" where
  "decode_rows p outBuffer s =
     (let s = call Jpeg_start_decompress s;
          rowstride = (ucast (output_width p * output_components p) :: size_t);
          (outBuffer, s) = read_rows 0 (unat (output_height p)) rowstride outBuffer s
      in (outBuffer, jpeg_finish_decompress (src_at_finish p) s))"

text \<open>
  \<^verbatim>\<open>Decode_JPEG(inBuffer, outBuffer, width, height, bufsize)\<close>. In the second pass the
  source assigns \<^verbatim>\<open>numbytes = 0\<close> after \<^verbatim>\<open>jpegmemsrcmgr_build\<close>, in the first pass
  before it. The first \<^verbatim>\<open>return\<close> leaves without \<^verbatim>\<open>jpeg_destroy_decompress\<close>.
\<close>

definition Decode_JPEG ::
  "decoder \<Rightarrow> addr \<Rightarrow> addr \<Rightarrow> c_uint \<Rightarrow> c_uint \<Rightarrow> size_t \<Rightarrow> jstate \<Rightarrow> int \<times> jstate" where
  "Decode_JPEG codec inBuffer outBuffer width height bufsize s0 =
     (let s = s0\<lparr>numbytes := 0\<rparr>;
          s = call Jpeg_create_decompress s;
          (sm, s) = jpegmemsrcmgr_build inBuffer bufsize s;
          p = codec 0 sm;
          s = decode_header p s;
          s = call (Dinfo_output JCS_RGB JDCT_IFAST) s;
          (outBuffer, s) = decode_rows p outBuffer s
      in if height \<le> output_height p then (0, s)
         else
           (let inBuffer = inBuffer + numbytes s;
                (sm, s) = jpegmemsrcmgr_build inBuffer (bufsize - numbytes s) s;
                s = s\<lparr>numbytes := 0\<rparr>;
                p = codec 1 sm;
                s = decode_header p s;
                (outBuffer, s) = decode_rows p outBuffer s
            in (1, call Jpeg_destroy_decompress s)))"

section \<open>The encode entry point\<close>

text \<open>
  Modelled from the spec: the movie descriptor of \<^verbatim>\<open>AVI_avi.h\<close>, which is not among the
  sources. It supplies the frame width and height, the quality (an integer from 0 to
  10000), the interlace flag and the odd-field-first flag; all are taken as \<^verbatim>\<open>int\<close>.
\<close>

record AviMovie =
  Width :: c_int
  Height :: c_int
  Quality :: c_int
  interlace_flag :: c_int
  odd_fields :: c_int

definition int_div :: "c_int \<Rightarrow> c_int \<Rightarrow> c_int" where
  \<comment> \<open>\<^verbatim>\<open>a / b\<close> on two \<^verbatim>\<open>int\<close> operands: the quotient truncated towards zero.\<close>
  "int_div a b = word_of_int (sint a sdiv sint b)"

text \<open>
  The outcome of \<^verbatim>\<open>avi_converter_to_mjpeg\<close>: the returned pointer (\<open>None\<close> for
  \<^verbatim>\<open>nullptr\<close>), the value left in \<^verbatim>\<open>*size\<close>, the pixel buffer that was handed to the
  compression (its address and its bytes), and the state.
\<close>

record encode_result =
  returned :: "addr option"
  size_out :: size_t
  pixels :: "addr \<times> uchar list"
  final :: jstate

text \<open>
  \<^verbatim>\<open>avi_converter_to_mjpeg(movie, stream, buffer, size)\<close>. The allocator
  \<^verbatim>\<open>imb_alloc_pixels\<close> is outside this file: \<open>alloc1\<close> and \<open>alloc2\<close> are what its first
  and second call return, \<open>None\<close> for \<^verbatim>\<open>nullptr\<close> and otherwise the address and the bytes
  of the new buffer. \<open>buffer\<close> is the caller's pixel buffer, address and bytes, and
  \<open>bufsize\<close> the value of \<^verbatim>\<open>*size\<close> on entry.
\<close>

definition avi_converter_to_mjpeg ::
  "encoder \<Rightarrow> (addr \<times> uchar list) option \<Rightarrow> (addr \<times> uchar list) option \<Rightarrow>
   AviMovie \<Rightarrow> addr \<times> uchar list \<Rightarrow> size_t \<Rightarrow> jstate \<Rightarrow> fault + encode_result" where
  "avi_converter_to_mjpeg enc alloc1 alloc2 movie buffer bufsize s0 =
     (let s = s0\<lparr>numbytes := 0\<rparr>;
          total = (0 :: size_t)
      in case alloc1 of
           None \<Rightarrow> Inr \<lparr>returned = None, size_out = total, pixels = buffer, final = s\<rparr>
         | Some buf \<Rightarrow>
             if interlace_flag movie = 0 then
               (let s = Compress_JPEG enc (int_div (Quality movie) 100) (fst buf) (fst buffer)
                          (Width movie) (Height movie) bufsize s;
                    total = total + numbytes s
                in Inr \<lparr>returned = Some (fst buf), size_out = total, pixels = buffer, final = s\<rparr>)
             else
               (case deinterlace (odd_fields movie) (snd buf) (snd buffer)
                       (Width movie) (Height movie) of
                  Inl e \<Rightarrow> Inl e
                | Inr deinterlaced \<Rightarrow>
                    (let buffer = (fst buf, deinterlaced)
                     in case alloc2 of
                          None \<Rightarrow>
                            Inr \<lparr>returned = None, size_out = total, pixels = buffer, final = s\<rparr>
                        | Some buf \<Rightarrow>
                            (let s = Compress_JPEG enc (int_div (Quality movie) 100) (fst buf)
                                       (fst buffer) (Width movie)
                                       (int_div (Height movie) 2) (bufsize div 2) s;
                                 total = total + numbytes s;
                                 s = s\<lparr>numbytes := 0\<rparr>;
                                 s = Compress_JPEG enc (int_div (Quality movie) 100)
                                       (fst buf + total)
                                       (fst buffer
                                        + scast (int_div (Height movie) 2) * scast (Width movie) * 3)
                                       (Width movie) (int_div (Height movie) 2) (bufsize div 2) s;
                                 total = total + numbytes s
                             in Inr \<lparr>returned = Some (fst buf), size_out = total,
                                      pixels = buffer, final = s\<rparr>))))"

section \<open>Vocabulary of the properties\<close>

text \<open>
  Row \<open>r\<close> of a buffer whose rows have \<open>rs\<close> bytes each.
\<close>

definition row :: "nat \<Rightarrow> nat \<Rightarrow> 'a list \<Rightarrow> 'a list" where
  "row rs r buf = take rs (drop (r * rs) buf)"

text \<open>
  The row maps as the specification words them: \<^verbatim>\<open>interlace\<close> fills output row \<open>i\<close>
  from input row \<open>i/2 + height/2\<close> when \<open>i\<close> is odd and from input row \<open>i/2\<close> when it is
  even; \<^verbatim>\<open>deinterlace\<close> sends input row \<open>i\<close> to output row \<open>i/2 + height/2\<close> when
  \<open>i mod 2\<close> equals the field-order argument and to output row \<open>i/2\<close> otherwise.
\<close>

definition interlace_source :: "nat \<Rightarrow> nat \<Rightarrow> nat" where
  "interlace_source h i = (if odd i then i div 2 + h div 2 else i div 2)"

definition deinterlace_target :: "nat \<Rightarrow> nat \<Rightarrow> nat \<Rightarrow> nat" where
  "deinterlace_target oddFirst h i =
     (if i mod 2 = oddFirst then i div 2 + h div 2 else i div 2)"

text \<open>The neighbour of a row in its pair of rows \<open>2k\<close>, \<open>2k + 1\<close>.\<close>

definition pair_swap :: "nat \<Rightarrow> nat" where
  "pair_swap r = (if even r then r + 1 else r - 1)"

text \<open>Projections of a list of calls.\<close>

fun quality_of :: "jpeg_call \<Rightarrow> c_int list" where
  "quality_of (Jpeg_set_quality q force) = [q]"
| "quality_of _ = []"

definition quality_calls :: "jpeg_call list \<Rightarrow> c_int list" where
  "quality_calls cs = concat (map quality_of cs)"

fun written_row_of :: "jpeg_call \<Rightarrow> addr list" where
  "written_row_of (Jpeg_write_scanlines p n) = [p]"
| "written_row_of _ = []"

definition written_rows :: "jpeg_call list \<Rightarrow> addr list" where
  "written_rows cs = concat (map written_row_of cs)"

fun read_row_of :: "jpeg_call \<Rightarrow> addr list" where
  "read_row_of (Jpeg_read_scanlines p n) = [p]"
| "read_row_of _ = []"

definition read_rows_of :: "jpeg_call list \<Rightarrow> addr list" where
  "read_rows_of cs = concat (map read_row_of cs)"

fun build_of :: "jpeg_call \<Rightarrow> (addr \<times> size_t) list" where
  "build_of (Dest_build p n) = [(p, n)]"
| "build_of (Src_build p n) = [(p, n)]"
| "build_of _ = []"

definition builds :: "jpeg_call list \<Rightarrow> (addr \<times> size_t) list" where
  "builds cs = concat (map build_of cs)"

fun term_of :: "jpeg_call \<Rightarrow> (size_t \<times> size_t) list" where
  "term_of (Dest_term left n) = [(left, n)]"
| "term_of (Src_term left n) = [(left, n)]"
| "term_of _ = []"

definition terms :: "jpeg_call list \<Rightarrow> (size_t \<times> size_t) list" where
  "terms cs = concat (map term_of cs)"

text \<open>
  Two sample codecs for concrete runs of the model: an encoder that emits 20 bytes for
  every stream, and a decoder whose streams are 4 pixels wide and 1 row high, carry their
  tables, and take 40 bytes (first pass) and 50 bytes (second pass) of input.
\<close>

definition sample_encoder :: encoder where
  "sample_encoder dest cs =
     dest\<lparr>next_output_byte := next_output_byte dest + 20,
          free_in_buffer := free_in_buffer dest - 20\<rparr>"

definition sample_decoder :: decoder where
  "sample_decoder n sm =
     \<lparr>has_huff_tables = True, output_width = 4, output_components = 3, output_height = 1,
      src_at_finish =
        sm\<lparr>next_input_byte := next_input_byte sm + (if n = 0 then 40 else 50),
           bytes_in_buffer := bytes_in_buffer sm - (if n = 0 then 40 else 50)\<rparr>\<rparr>"

declare interlace_loop.simps [simp del]
declare deinterlace_loop.simps [simp del]
declare fill_marker.simps [simp del]
declare write_rows.simps [simp del]
declare read_rows.simps [simp del]

section \<open>Properties\<close>

subsection \<open>Arithmetic of the machine types\<close>

lemma sint_nonneg_uint:
  fixes x :: "'a::len word"
  assumes "0 \<le> sint x"
  shows "sint x = uint x"
proof -
  let ?n = "LENGTH('a) - Suc 0"
  have nb: "\<not> bit x ?n" using assms by (simp add: bit_last_iff)
  then have nb': "\<not> bit (uint x) ?n" by (simp add: bit_uint_iff)
  have "sint x = signed_take_bit ?n (uint x)" by (simp add: sint_uint)
  also have "\<dots> = take_bit ?n (uint x)" using nb' by (rule signed_take_bit_eq_if_positive)
  also have "\<dots> = take_bit (Suc ?n) (uint x)"
    using nb' take_bit_Suc_from_most [of ?n "uint x"] by simp
  also have "Suc ?n = LENGTH('a)" by simp
  also have "take_bit LENGTH('a) (uint x) = uint x"
    by (simp add: take_bit_int_eq_self_iff)
  finally show ?thesis .
qed

lemma c_int_unat:
  fixes x :: c_int
  assumes "0 \<le> sint x"
  shows "unat x = nat (sint x)"
proof -
  have su: "sint x = uint x" using assms by (rule sint_nonneg_uint)
  show u: "unat x = nat (sint x)" unfolding su by simp
qed

lemma c_int_scast:
  fixes x :: c_int
  assumes "0 \<le> sint x"
  shows "(scast x :: size_t) = of_nat (nat (sint x))"
proof -
  have "int (nat (sint x)) = sint x" using assms by simp
  then have "(of_nat (nat (sint x)) :: size_t) = word_of_int (sint x)"
    by (metis of_int_of_nat_eq)
  then show ?thesis by (simp only: scast_eq)
qed

lemma c_uint_ucast:
  fixes x :: c_int
  shows "(ucast x :: size_t) = of_nat (unat x)"
  by (simp only: ucast_eq unat_eq_nat_uint) simp

lemma c_int_nat_less:
  fixes x :: c_int
  shows "nat (sint x) < 2 ^ 31"
proof -
  have "sint x < 2 ^ (LENGTH(32) - 1)" by (rule sint_lt)
  then show ?thesis by (simp add: nat_less_iff)
qed

lemma int_div_2:
  fixes x :: c_int
  assumes "0 \<le> sint x"
  shows "unat (int_div x 2) = nat (sint x) div 2"
    and "(scast (int_div x 2) :: size_t) = of_nat (nat (sint x) div 2)"
proof -
  let ?n = "nat (sint x) div 2"
  have n: "int ?n < 2 ^ 31" using c_int_nat_less [of x] by simp
  have "sint x sdiv 2 = int ?n"
    using assms by (simp add: signed_divide_int_def sgn_if zdiv_int)
  then have eq: "int_div x 2 = word_of_int (int ?n)" by (simp add: int_div_def)
  have "(int ?n + 2 ^ 31) mod 2 ^ 32 = int ?n + 2 ^ 31"
    using n by (intro mod_pos_pos_trivial) simp_all
  then have s: "sint (int_div x 2) = int ?n"
    unfolding eq int_word_sint by simp
  then have nn: "0 \<le> sint (int_div x 2)" by simp
  show "unat (int_div x 2) = ?n" unfolding c_int_unat [OF nn] s by simp
  show "(scast (int_div x 2) :: size_t) = of_nat ?n" unfolding c_int_scast [OF nn] s by simp
qed

lemma row_stride_word:
  fixes w :: c_int
  assumes "0 \<le> sint w" "3 * sint w \<le> INT_MAX"
  shows "(ucast (w * 3) :: size_t) = of_nat (nat (3 * sint w))"
proof -
  have u: "unat w = nat (sint w)" using assms(1) by (rule c_int_unat)
  have "unat w * unat (3 :: c_int) < 2 ^ LENGTH(32)"
    using assms by (simp add: u INT_MAX_def nat_less_iff)
  then have "unat (w * 3) = unat w * unat (3 :: c_int)" by (rule unat_mult_lem [THEN iffD1])
  then have "unat (w * 3) = nat (3 * sint w)" using assms(1) by (simp add: u nat_mult_distrib)
  then show ?thesis unfolding c_uint_ucast by simp
qed

lemma quality_value:
  fixes q :: c_int
  assumes "0 \<le> sint q" "sint q \<le> 10000"
  shows "int_div q 100 = word_of_int (sint q div 100)"
    and "sint q sdiv 100 = sint q div 100"
    and "sint (word_of_int (sint q div 100) :: c_int) = sint q div 100"
proof -
  show sd: "sint q sdiv 100 = sint q div 100"
    using assms(1) by (simp add: signed_divide_int_def sgn_if)
  then show "int_div q 100 = word_of_int (sint q div 100)"
    by (simp add: int_div_def)
  have "0 \<le> sint q div 100" "sint q div 100 \<le> 100" using assms by simp_all
  then have "(sint q div 100 + 2 ^ 31) mod 2 ^ 32 = sint q div 100 + 2 ^ 31"
    by (intro mod_pos_pos_trivial) simp_all
  then show "sint (word_of_int (sint q div 100) :: c_int) = sint q div 100"
    unfolding int_word_sint by simp
qed

lemma size_of_int_nonneg: "0 \<le> x \<Longrightarrow> x < 2 ^ 64 \<Longrightarrow> size_of_int x = nat x"
  by (simp add: size_of_int_def SIZE_MOD_def)

lemma size_of_int_0_1: "size_of_int 0 = 0" "size_of_int 1 = 1"
  by (simp_all add: size_of_int_def SIZE_MOD_def)

lemma size_of_int_of_nat: "n < 2 ^ 64 \<Longrightarrow> size_of_int (int n) = n"
  by (simp add: size_of_int_def SIZE_MOD_def)

lemma sdiv_of_nat_2: "int n sdiv 2 = int (n div 2)"
  by (simp add: signed_divide_int_def sgn_if zdiv_int)

lemma small_product: "a < 2 ^ 31 \<Longrightarrow> b < 2 ^ 31 \<Longrightarrow> a * b < (2 :: nat) ^ 64"
proof -
  assume a: "a < 2 ^ 31" and b: "b < 2 ^ 31"
  have "a * b \<le> 2 ^ 31 * (2 :: nat) ^ 31"
    using a b by (intro mult_le_mono) simp_all
  also have "\<dots> < 2 ^ 64" by simp
  finally show ?thesis .
qed

lemma size_mul_small: "a < 2 ^ 31 \<Longrightarrow> b < 2 ^ 31 \<Longrightarrow> size_mul a b = a * b"
  using small_product [of a b] by (simp add: size_mul_def SIZE_MOD_def)

lemma size_add_small: "a < 2 ^ 31 \<Longrightarrow> b < 2 ^ 31 \<Longrightarrow> size_add a b = a + b"
  by (simp add: size_add_def SIZE_MOD_def)

lemma frame_geometry:
  fixes width height :: c_int
  assumes "0 \<le> sint width" "3 * sint width \<le> INT_MAX" "0 \<le> sint height"
  shows "int_mul (sint width) 3 = 3 * sint width"
    and "size_of_int (3 * sint width) = nat (3 * sint width)"
    and "nat (3 * sint width) < 2 ^ 31"
    and "nat (sint height) < 2 ^ 31"
    and "sint height = int (nat (sint height))"
proof -
  have "(sint width * 3 - INT_MIN) mod 2 ^ 32 = sint width * 3 - INT_MIN"
    using assms by (intro mod_pos_pos_trivial) (simp_all add: INT_MAX_def INT_MIN_def)
  then show "int_mul (sint width) 3 = 3 * sint width"
    by (simp add: int_mul_def int_wrap_def)
  show "size_of_int (3 * sint width) = nat (3 * sint width)"
    using assms by (intro size_of_int_nonneg) (simp_all add: INT_MAX_def)
  show "nat (3 * sint width) < 2 ^ 31"
    using assms by (simp add: INT_MAX_def nat_less_iff)
  have "sint height < 2 ^ (LENGTH(32) - 1)" by (rule sint_lt)
  then show "nat (sint height) < 2 ^ 31" by (simp add: nat_less_iff)
  show "sint height = int (nat (sint height))" using assms by simp
qed

subsection \<open>Copies and rows\<close>

lemma memcpy_ok:
  assumes "d + n \<le> length to" "s + n \<le> length from"
  shows "\<exists>out. memcpy to d from s n = Inr out \<and> length out = length to \<and>
           (\<forall>k < length to. out ! k = (if d \<le> k \<and> k < d + n then from ! (s + (k - d)) else to ! k))"
proof -
  let ?mid = "take n (drop s from)"
  let ?out = "take d to @ ?mid @ drop (d + n) to"
  have mid: "length ?mid = n" using assms by simp
  have pre: "length (take d to) = d" using assms by simp
  have len: "length ?out = length to" using assms by simp
  have nth: "?out ! k = (if d \<le> k \<and> k < d + n then from ! (s + (k - d)) else to ! k)"
    if k: "k < length to" for k
  proof -
    consider "k < d" | "d \<le> k" "k < d + n" | "d + n \<le> k" by linarith
    then show ?thesis
    proof cases
      case 1
      then show ?thesis using k by (simp add: nth_append)
    next
      case 2
      then have "?out ! k = ?mid ! (k - d)"
        by (simp add: nth_append pre mid del: length_take length_drop)
      also have "\<dots> = from ! (s + (k - d))" using 2 assms by simp
      finally show ?thesis using 2 by simp
    next
      case 3
      then have "?out ! k = drop (d + n) to ! (k - d - n)"
        by (simp add: nth_append pre mid del: length_take length_drop)
      also have "\<dots> = to ! k" using 3 k by simp
      finally show ?thesis using 3 by simp
    qed
  qed
  show ?thesis using assms len nth by (simp add: memcpy_def)
qed

lemma row_bound: "(r :: nat) < h \<Longrightarrow> r * rs + rs \<le> h * rs"
proof -
  assume "r < h"
  then have "Suc r \<le> h" by simp
  then have "Suc r * rs \<le> h * rs" by (rule mult_le_mono1)
  then show ?thesis by (simp add: add.commute)
qed

lemma in_row_iff:
  assumes "k < h * (rs :: nat)"
  shows "(r * rs \<le> k \<and> k < r * rs + rs) \<longleftrightarrow> k div rs = r"
proof -
  have pos: "0 < rs" using assms by (cases rs) simp_all
  show ?thesis
  proof
    assume "r * rs \<le> k \<and> k < r * rs + rs"
    then have "r \<le> k div rs" and "k div rs < Suc r"
      using pos by (simp_all add: less_eq_div_iff_mult_less_eq div_less_iff_less_mult)
    then show "k div rs = r" by simp
  next
    assume "k div rs = r"
    then have "r * rs = k - k mod rs" by (auto simp: minus_mod_eq_div_mult)
    moreover have "k mod rs < rs" using pos by simp
    moreover have "k mod rs \<le> k" by simp
    ultimately show "r * rs \<le> k \<and> k < r * rs + rs" by linarith
  qed
qed

subsection \<open>The two loops of the field transform\<close>

lemma interlace_source_less: "i < h \<Longrightarrow> interlace_source h i < h"
  by (auto simp: interlace_source_def elim!: oddE evenE)

lemma deinterlace_target_less: "i < h \<Longrightarrow> deinterlace_target b h i < h"
  by (auto simp: deinterlace_target_def)

lemma interlace_loop_nth:
  assumes h: "h < 2 ^ 31" and rs: "rs < 2 ^ 31" and lf: "length from = h * rs"
  shows "i \<le> h \<Longrightarrow> length to = h * rs \<Longrightarrow>
         \<exists>out. interlace_loop i rs (int h) to from = Inr out \<and> length out = h * rs \<and>
           (\<forall>k < h * rs. out ! k =
              (if i * rs \<le> k then from ! (interlace_source h (k div rs) * rs + k mod rs)
               else to ! k))"
proof (induction "h - i" arbitrary: i to)
  case 0
  then have "i = h" by simp
  then show ?case using h "0.prems"
    by (simp add: interlace_loop.simps [of h] size_of_int_of_nat)
next
  case (Suc n)
  then have i: "i < h" by simp
  let ?src = "interlace_source h i"
  have src: "?src < h" using i by (rule interlace_source_less)
  have hh: "size_of_int (int h) = h" using h by (simp add: size_of_int_of_nat)
  have half: "size_of_int (int h sdiv 2) = h div 2"
    using h by (simp add: sdiv_of_nat_2 size_of_int_of_nat)
  have i31: "i < 2 ^ 31" using i h by simp
  have s31: "?src < 2 ^ 31" using src h by simp
  have m1: "size_mul i rs = i * rs" using i31 rs by (rule size_mul_small)
  have a1: "size_add (i div 2) (h div 2) = i div 2 + h div 2"
    using i31 h by (intro size_add_small) simp_all
  have m2: "size_mul ?src rs = ?src * rs" using s31 rs by (rule size_mul_small)
  have m3: "size_mul (i div 2) rs = i div 2 * rs"
    using i31 rs by (intro size_mul_small) simp_all
  have "i * rs + rs \<le> length to" "?src * rs + rs \<le> length from"
    using row_bound [OF i] row_bound [OF src] Suc.prems lf by simp_all
  from memcpy_ok [OF this] obtain to' where
    cp: "memcpy to (i * rs) from (?src * rs) rs = Inr to'" and
    len': "length to' = h * rs" and
    nth': "\<And>k. k < h * rs \<Longrightarrow> to' ! k =
             (if i * rs \<le> k \<and> k < i * rs + rs then from ! (?src * rs + (k - i * rs)) else to ! k)"
    using Suc.prems by auto
  have step: "interlace_loop i rs (int h) to from = interlace_loop (i + 1) rs (int h) to' from"
  proof (cases "odd i")
    case True
    then have "?src = i div 2 + h div 2" "i mod 2 \<noteq> 0"
      by (simp_all add: interlace_source_def odd_iff_mod_2_eq_one)
    then show ?thesis using i cp m2
      by (subst interlace_loop.simps) (simp add: hh half m1 a1)
  next
    case False
    then have "?src = i div 2" "i mod 2 = 0"
      by (simp_all add: interlace_source_def)
    then show ?thesis using i cp
      by (subst interlace_loop.simps) (simp add: hh m1 m3)
  qed
  have "n = h - (i + 1)" "i + 1 \<le> h" using Suc.hyps i by simp_all
  from Suc.hyps(1) [OF this len'] obtain out where
    out: "interlace_loop (i + 1) rs (int h) to' from = Inr out" and
    lo: "length out = h * rs" and
    no: "\<And>k. k < h * rs \<Longrightarrow> out ! k =
           (if (i + 1) * rs \<le> k then from ! (interlace_source h (k div rs) * rs + k mod rs)
            else to' ! k)"
    by auto
  have "out ! k = (if i * rs \<le> k then from ! (interlace_source h (k div rs) * rs + k mod rs)
                   else to ! k)" if k: "k < h * rs" for k
  proof (cases "(i + 1) * rs \<le> k")
    case True
    then have "i * rs \<le> k" by simp
    then show ?thesis using no [OF k] True by simp
  next
    case False
    note F = this
    show ?thesis
    proof (cases "i * rs \<le> k")
      case True
      then have inrow: "i * rs \<le> k \<and> k < i * rs + rs" using F by simp
      then have kd: "k div rs = i" using in_row_iff [OF k] by simp
      then have "k mod rs = k - i * rs" by (metis minus_mult_div_eq_mod mult.commute)
      then show ?thesis using no [OF k] nth' [OF k] F True inrow kd by simp
    next
      case False
      then show ?thesis using no [OF k] nth' [OF k] F by simp
    qed
  qed
  then show ?case using step out lo by simp
qed

lemma row_cell_less: "(r :: nat) < h \<Longrightarrow> c < rs \<Longrightarrow> r * rs + c < h * rs"
  using row_bound [of r h rs] by linarith

lemma row_cell_div: "c < (rs :: nat) \<Longrightarrow> (r * rs + c) div rs = r"
  by simp

lemma deinterlace_loop_nth:
  assumes h: "h < 2 ^ 31" and rs: "rs < 2 ^ 31" and lf: "length from = h * rs"
  shows "i \<le> h \<Longrightarrow> length to = h * rs \<Longrightarrow>
         \<exists>out. deinterlace_loop i oddf rs (int h) to from = Inr out \<and> length out = h * rs \<and>
           (\<forall>k < h * rs. (\<forall>j \<in> {i..<h}. deinterlace_target (size_of_int oddf) h j \<noteq> k div rs) \<longrightarrow>
                out ! k = to ! k) \<and>
           (\<forall>j \<in> {i..<h}.
                (\<forall>j' \<in> {j<..<h}. deinterlace_target (size_of_int oddf) h j' \<noteq> deinterlace_target (size_of_int oddf) h j) \<longrightarrow>
                (\<forall>c < rs. out ! (deinterlace_target (size_of_int oddf) h j * rs + c) = from ! (j * rs + c)))"
proof (induction "h - i" arbitrary: i to)
  case 0
  then have "i = h" by simp
  then show ?case using h "0.prems"
    by (auto simp add: deinterlace_loop.simps [of h] size_of_int_of_nat)
next
  case (Suc n)
  then have i: "i < h" by simp
  let ?tgt = "deinterlace_target (size_of_int oddf) h i"
  have tgt: "?tgt < h" using i by (rule deinterlace_target_less)
  have hh: "size_of_int (int h) = h" using h by (simp add: size_of_int_of_nat)
  have half: "size_of_int (int h sdiv 2) = h div 2"
    using h by (simp add: sdiv_of_nat_2 size_of_int_of_nat)
  have i31: "i < 2 ^ 31" using i h by simp
  have t31: "?tgt < 2 ^ 31" using tgt h by simp
  have m1: "size_mul i rs = i * rs" using i31 rs by (rule size_mul_small)
  have a1: "size_add (i div 2) (h div 2) = i div 2 + h div 2"
    using i31 h by (intro size_add_small) simp_all
  have m2: "size_mul ?tgt rs = ?tgt * rs" using t31 rs by (rule size_mul_small)
  have m3: "size_mul (i div 2) rs = i div 2 * rs"
    using i31 rs by (intro size_mul_small) simp_all
  have "?tgt * rs + rs \<le> length to" "i * rs + rs \<le> length from"
    using row_bound [OF i] row_bound [OF tgt] Suc.prems lf by simp_all
  from memcpy_ok [OF this] obtain to' where
    cp: "memcpy to (?tgt * rs) from (i * rs) rs = Inr to'" and
    len': "length to' = h * rs" and
    nth': "\<And>k. k < h * rs \<Longrightarrow> to' ! k =
             (if ?tgt * rs \<le> k \<and> k < ?tgt * rs + rs then from ! (i * rs + (k - ?tgt * rs)) else to ! k)"
    using Suc.prems by auto
  have step: "deinterlace_loop i oddf rs (int h) to from =
              deinterlace_loop (i + 1) oddf rs (int h) to' from"
  proof (cases "i mod 2 = size_of_int oddf")
    case True
    then have "?tgt = i div 2 + h div 2" by (simp add: deinterlace_target_def)
    then show ?thesis using i cp m2 True
      by (subst deinterlace_loop.simps) (simp add: hh half m1 a1)
  next
    case False
    then have "?tgt = i div 2" by (simp add: deinterlace_target_def)
    then show ?thesis using i cp False
      by (subst deinterlace_loop.simps) (simp add: hh m1 m3)
  qed
  have "n = h - (i + 1)" "i + 1 \<le> h" using Suc.hyps i by simp_all
  from Suc.hyps(1) [OF this len'] obtain out where
    out: "deinterlace_loop (i + 1) oddf rs (int h) to' from = Inr out" and
    lo: "length out = h * rs" and
    keep: "\<And>k. k < h * rs \<Longrightarrow>
             (\<forall>j \<in> {i + 1..<h}. deinterlace_target (size_of_int oddf) h j \<noteq> k div rs) \<Longrightarrow>
             out ! k = to' ! k" and
    copied: "\<And>j c. j \<in> {i + 1..<h} \<Longrightarrow>
             (\<forall>j' \<in> {j<..<h}. deinterlace_target (size_of_int oddf) h j' \<noteq> deinterlace_target (size_of_int oddf) h j) \<Longrightarrow>
             c < rs \<Longrightarrow> out ! (deinterlace_target (size_of_int oddf) h j * rs + c) = from ! (j * rs + c)"
    by blast
  have A: "out ! k = to ! k"
    if k: "k < h * rs" and free: "\<forall>j \<in> {i..<h}. deinterlace_target (size_of_int oddf) h j \<noteq> k div rs" for k
  proof -
    have "out ! k = to' ! k" using keep [OF k] free by simp
    moreover have "k div rs \<noteq> ?tgt" using free i by auto
    then have "\<not> (?tgt * rs \<le> k \<and> k < ?tgt * rs + rs)" using in_row_iff [OF k] by simp
    ultimately show ?thesis using nth' [OF k] by simp
  qed
  have B: "out ! (deinterlace_target (size_of_int oddf) h j * rs + c) = from ! (j * rs + c)"
    if j: "j \<in> {i..<h}" and
       last: "\<forall>j' \<in> {j<..<h}. deinterlace_target (size_of_int oddf) h j' \<noteq> deinterlace_target (size_of_int oddf) h j" and
       c: "c < rs" for j c
  proof (cases "j = i")
    case False
    then show ?thesis using copied [of j c] j last c by simp
  next
    case True
    let ?k = "?tgt * rs + c"
    have k: "?k < h * rs" using tgt c by (rule row_cell_less)
    have kd: "?k div rs = ?tgt" using c by (rule row_cell_div)
    have "out ! ?k = to' ! ?k" using keep [OF k] last True kd by simp
    also have "\<dots> = from ! (i * rs + c)" using nth' [OF k] c by simp
    finally show ?thesis using True by simp
  qed
  show ?case unfolding step out using lo A B by blast
qed

lemma row_eqI:
  assumes "r < h" "r' < h" "length xs = h * rs" "length ys = h * rs"
    and "\<And>c. c < rs \<Longrightarrow> xs ! (r * rs + c) = ys ! (r' * rs + c)"
  shows "row rs r xs = row rs r' ys"
proof (rule nth_equalityI)
  have "r * rs + rs \<le> length xs" "r' * rs + rs \<le> length ys"
    using assms(1-4) row_bound by simp_all
  then show "length (row rs r xs) = length (row rs r' ys)"
    by (simp add: row_def)
  fix c assume "c < length (row rs r xs)"
  then have c: "c < rs" by (simp add: row_def)
  then show "row rs r xs ! c = row rs r' ys ! c"
    using assms row_cell_less [of r h c rs] row_cell_less [of r' h c rs]
    by (simp add: row_def)
qed

lemma interlace_nth:
  fixes width height :: c_int
  assumes g: "0 \<le> sint width" "3 * sint width \<le> INT_MAX" "0 \<le> sint height"
    and lf: "length from = nat (sint height) * nat (3 * sint width)"
    and lt: "length to = nat (sint height) * nat (3 * sint width)"
  shows "\<exists>out. interlace to from width height = Inr out \<and>
           length out = nat (sint height) * nat (3 * sint width) \<and>
           (\<forall>k < nat (sint height) * nat (3 * sint width). out ! k =
              from ! (interlace_source (nat (sint height)) (k div nat (3 * sint width))
                        * nat (3 * sint width) + k mod nat (3 * sint width)))"
proof -
  note G = frame_geometry [OF g]
  have "interlace to from width height =
        interlace_loop 0 (nat (3 * sint width)) (int (nat (sint height))) to from"
    unfolding interlace_def Let_def G(1) G(2) using G(5) by simp
  then show ?thesis
    using interlace_loop_nth [OF G(4) G(3) lf, of 0 to] lt by (simp del: int_nat_eq)
qed

lemma deinterlace_nth:
  fixes width height oddf :: c_int
  assumes g: "0 \<le> sint width" "3 * sint width \<le> INT_MAX" "0 \<le> sint height"
    and lf: "length from = nat (sint height) * nat (3 * sint width)"
    and lt: "length to = nat (sint height) * nat (3 * sint width)"
  shows "\<exists>out. deinterlace oddf to from width height = Inr out \<and>
           length out = nat (sint height) * nat (3 * sint width) \<and>
           (\<forall>k < nat (sint height) * nat (3 * sint width).
              (\<forall>j \<in> {0..<nat (sint height)}.
                 deinterlace_target (size_of_int (sint oddf)) (nat (sint height)) j \<noteq> k div nat (3 * sint width)) \<longrightarrow>
              out ! k = to ! k) \<and>
           (\<forall>j \<in> {0..<nat (sint height)}.
              (\<forall>j' \<in> {j<..<nat (sint height)}.
                 deinterlace_target (size_of_int (sint oddf)) (nat (sint height)) j'
                 \<noteq> deinterlace_target (size_of_int (sint oddf)) (nat (sint height)) j) \<longrightarrow>
              (\<forall>c < nat (3 * sint width).
                 out ! (deinterlace_target (size_of_int (sint oddf)) (nat (sint height)) j * nat (3 * sint width) + c) =
                 from ! (j * nat (3 * sint width) + c)))"
proof -
  note G = frame_geometry [OF g]
  have eq: "deinterlace oddf to from width height =
        deinterlace_loop 0 (sint oddf) (nat (3 * sint width)) (int (nat (sint height))) to from"
    unfolding deinterlace_def Let_def G(1) G(2) using G(5) by simp
  show ?thesis
    unfolding eq by (rule deinterlace_loop_nth [OF G(4) G(3) lf le0 lt])
qed

lemma deinterlace_target_inj:
  assumes "even h" "b < 2" "i < h" "j < h"
    and "deinterlace_target b h i = deinterlace_target b h j"
  shows "i = j"
proof -
  obtain m where m: "h = 2 * m" using assms(1) by (elim evenE)
  have lo: "k div 2 < m" if "k < h" for k using that m by simp
  show ?thesis
  proof (cases "i mod 2 = j mod 2")
    case True
    then have "i div 2 = j div 2"
      using assms(5) by (simp add: deinterlace_target_def split: if_splits)
    then show ?thesis using True by (metis div_mult_mod_eq)
  next
    case False
    have "i mod 2 = b \<or> j mod 2 = b"
    proof -
      have "i mod 2 < 2" "j mod 2 < 2" by simp_all
      then show ?thesis using False assms(2) by linarith
    qed
    then show ?thesis
      using False assms(5) lo [OF assms(3)] lo [OF assms(4)] m
      by (auto simp add: deinterlace_target_def split: if_splits)
  qed
qed

lemma interlace_source_odd_first:
  "interlace_source h r = deinterlace_target 1 h r"
  by (simp add: interlace_source_def deinterlace_target_def odd_iff_mod_2_eq_one)

lemma interlace_source_even_first:
  "interlace_source h r = deinterlace_target 0 h (pair_swap r)"
proof (cases "even r")
  case True
  then have "(r + 1) mod 2 = 1" "(r + 1) div 2 = r div 2" by (auto elim!: evenE)
  then show ?thesis using True
    by (simp add: interlace_source_def deinterlace_target_def pair_swap_def)
next
  case False
  then have "(r - 1) mod 2 = 0" "(r - 1) div 2 = r div 2" by (auto elim!: oddE)
  then show ?thesis using False
    by (simp add: interlace_source_def deinterlace_target_def pair_swap_def)
qed

lemma pair_swap_less: "even h \<Longrightarrow> r < h \<Longrightarrow> pair_swap r < h"
  by (auto simp: pair_swap_def elim!: oddE evenE)

lemma round_trip_nth:
  fixes width height oddf :: c_int
  assumes g: "0 \<le> sint width" "3 * sint width \<le> INT_MAX" "0 \<le> sint height"
    and ev: "even (sint height)"
    and b: "b < 2" "size_of_int (sint oddf) = b"
    and lx: "length X = nat (sint height) * nat (3 * sint width)"
    and l1: "length fresh1 = length X" and l2: "length fresh2 = length X"
  shows "\<exists>split out. deinterlace oddf fresh1 X width height = Inr split \<and>
           interlace fresh2 split width height = Inr out \<and> length out = length X \<and>
           (\<forall>r < nat (sint height). \<forall>r' < nat (sint height). \<forall>c < nat (3 * sint width).
              interlace_source (nat (sint height)) r = deinterlace_target b (nat (sint height)) r' \<longrightarrow>
              out ! (r * nat (3 * sint width) + c) = X ! (r' * nat (3 * sint width) + c))"
proof -
  let ?h = "nat (sint height)"
  let ?rs = "nat (3 * sint width)"
  have evh: "even ?h" using ev g(3) by (simp add: even_nat_iff)
  have l1': "length fresh1 = ?h * ?rs" and l2': "length fresh2 = ?h * ?rs"
    using l1 l2 lx by simp_all
  from deinterlace_nth [OF g lx l1', of oddf] obtain split where
    d: "deinterlace oddf fresh1 X width height = Inr split" and
    ls: "length split = ?h * ?rs" and
    cp: "\<forall>j \<in> {0..<?h}.
           (\<forall>j' \<in> {j<..<?h}. deinterlace_target b ?h j' \<noteq> deinterlace_target b ?h j) \<longrightarrow>
           (\<forall>c < ?rs. split ! (deinterlace_target b ?h j * ?rs + c) = X ! (j * ?rs + c))"
    unfolding b(2) by blast
  have cp': "split ! (deinterlace_target b ?h j * ?rs + c) = X ! (j * ?rs + c)"
    if "j < ?h" "c < ?rs" for j c
  proof -
    have "\<forall>j' \<in> {j<..<?h}. deinterlace_target b ?h j' \<noteq> deinterlace_target b ?h j"
    proof
      fix j' assume "j' \<in> {j<..<?h}"
      then have "j' < ?h" "j' \<noteq> j" by simp_all
      then show "deinterlace_target b ?h j' \<noteq> deinterlace_target b ?h j"
        using deinterlace_target_inj [OF evh b(1) _ that(1), of j'] by blast
    qed
    then show ?thesis using cp that by simp
  qed
  from interlace_nth [OF g ls l2'] obtain out where
    i: "interlace fresh2 split width height = Inr out" and
    lo: "length out = ?h * ?rs" and
    src: "\<forall>k < ?h * ?rs. out ! k = split ! (interlace_source ?h (k div ?rs) * ?rs + k mod ?rs)"
    by blast
  have "out ! (r * ?rs + c) = X ! (r' * ?rs + c)"
    if "r < ?h" "r' < ?h" "c < ?rs" "interlace_source ?h r = deinterlace_target b ?h r'" for r r' c
  proof -
    have "r * ?rs + c < ?h * ?rs" using that(1,3) by (rule row_cell_less)
    then have "out ! (r * ?rs + c) = split ! (interlace_source ?h r * ?rs + c)"
      using src that(3) by simp
    then show ?thesis using cp' [OF that(2,3)] that(4) by simp
  qed
  then show ?thesis using d i lo lx by auto
qed

subsection \<open>The calls into the codec\<close>

lemma calls_call [simp]: "calls (call c s) = calls s @ [c]"
  by (simp add: call_def)

lemma numbytes_call [simp]: "numbytes (call c s) = numbytes s"
  by (simp add: call_def)

lemma write_rows_eq:
  "y \<le> n \<Longrightarrow>
   write_rows y n rowstride p s =
     (p + of_nat (n - y) * rowstride,
      s\<lparr>calls := calls s @ map (\<lambda>k. Jpeg_write_scanlines (p + of_nat k * rowstride) 1) [0..<n - y]\<rparr>)"
proof (induction "n - y" arbitrary: y p s)
  case 0
  then show ?case by (simp add: write_rows.simps [of y])
next
  case (Suc d)
  then have y: "y < n" and d: "d = n - (y + 1)" and le: "y + 1 \<le> n" by simp_all
  have n: "n - y = Suc (n - (y + 1))" using y by simp
  have "write_rows y n rowstride p s =
        write_rows (y + 1) n rowstride (p + rowstride) (call (Jpeg_write_scanlines p 1) s)"
    using y by (subst write_rows.simps) simp
  also note Suc.hyps(1) [OF d le]
  finally show ?case
    unfolding n
    by (simp add: upt_conv_Cons map_Suc_upt [symmetric] call_def algebra_simps del: upt_Suc)
qed

lemma read_rows_eq:
  "y \<le> n \<Longrightarrow>
   read_rows y n rowstride p s =
     (p + of_nat (n - y) * rowstride,
      s\<lparr>calls := calls s @ map (\<lambda>k. Jpeg_read_scanlines (p + of_nat k * rowstride) 1) [0..<n - y]\<rparr>)"
proof (induction "n - y" arbitrary: y p s)
  case 0
  then show ?case by (simp add: read_rows.simps [of y])
next
  case (Suc d)
  then have y: "y < n" and d: "d = n - (y + 1)" and le: "y + 1 \<le> n" by simp_all
  have n: "n - y = Suc (n - (y + 1))" using y by simp
  have "read_rows y n rowstride p s =
        read_rows (y + 1) n rowstride (p + rowstride) (call (Jpeg_read_scanlines p 1) s)"
    using y by (subst read_rows.simps) simp
  also note Suc.hyps(1) [OF d le]
  finally show ?case
    unfolding n
    by (simp add: upt_conv_Cons map_Suc_upt [symmetric] call_def algebra_simps del: upt_Suc)
qed

lemma fill_marker_eq:
  "i \<le> 60 \<Longrightarrow> length marker = 60 \<Longrightarrow>
   fill_marker i v marker = (60, take i marker @ replicate (60 - i) v)"
proof (induction "60 - i" arbitrary: i marker)
  case 0
  then show ?case by (simp add: fill_marker.simps [of 60])
next
  case (Suc d)
  then have i: "i < 60" and d: "d = 60 - (i + 1)" and le: "i + 1 \<le> 60" by simp_all
  have "fill_marker i v marker = fill_marker (i + 1) v (marker[i := v])"
    using i by (subst fill_marker.simps) simp
  also have "\<dots> = (60, take (i + 1) (marker[i := v]) @ replicate (60 - (i + 1)) v)"
    using Suc.hyps(1) [OF d le] Suc.prems by simp
  also have "take (i + 1) (marker[i := v]) = take i marker @ [v]"
    using i Suc.prems by (simp add: take_Suc_conv_app_nth)
  also have "(take i marker @ [v]) @ replicate (60 - (i + 1)) v = take i marker @ replicate (60 - i) v"
    using i by (simp add: replicate_Suc [symmetric] Suc_diff_Suc del: replicate_Suc)
  finally show ?case .
qed

lemma app0_marker_eq:
  "length marker = 60 \<Longrightarrow>
   app0_marker marker = [0x41, 0x56, 0x49, 0x31, 0] @ replicate 55 0x20"
proof -
  assume l: "length marker = 60"
  then obtain a m1 where 1: "marker = a # m1" "length m1 = 59" by (cases marker) simp_all
  then obtain b m2 where 2: "m1 = b # m2" "length m2 = 58" by (cases m1) simp_all
  then obtain c m3 where 3: "m2 = c # m3" "length m3 = 57" by (cases m2) simp_all
  then obtain d m4 where 4: "m3 = d # m4" "length m4 = 56" by (cases m3) simp_all
  then obtain e m5 where 5: "m4 = e # m5" "length m5 = 55" by (cases m4) simp_all
  have "snd (fill_marker 5 32 (0x41 # 0x56 # 0x49 # 0x31 # 0 # m5))
        = [0x41, 0x56, 0x49, 0x31, 0] @ replicate 55 0x20"
    using 5 by (subst fill_marker_eq) simp_all
  then show ?thesis
    by (simp add: app0_marker_def 1 2 3 4 5)
qed

lemma com_marker_eq: "length marker = 60 \<Longrightarrow> com_marker marker = replicate 60 0"
  by (simp add: com_marker_def fill_marker_eq)

lemma Compress_JPEG_eq:
  "Compress_JPEG enc quality outbuffer inBuffer width height bufsize s =
     (let cs = calls s @
            [Jpeg_create_compress, Dest_build outbuffer bufsize,
             Cinfo_image width height 3 JCS_RGB, Jpeg_set_defaults,
             Jpeg_set_colorspace JCS_YCbCr, Jpeg_set_quality quality True,
             Cinfo_sent_tables True True True True, Cinfo_components 0 1 1 2,
             Cinfo_write_JFIF_header False, Jpeg_start_compress False,
             Jpeg_write_marker JPEG_APP0 ([0x41, 0x56, 0x49, 0x31, 0] @ replicate 55 0x20) 60,
             Jpeg_write_marker JPEG_COM (replicate 60 0) 60] @
            map (\<lambda>y. Jpeg_write_scanlines (inBuffer + of_nat y * ucast (width * 3)) 1)
              [0..<unat height];
          left = free_in_buffer
                   (enc \<lparr>next_output_byte = outbuffer, free_in_buffer = bufsize\<rparr> cs)
      in s\<lparr>numbytes := bufsize - left,
            calls := cs @ [Jpeg_finish_compress, Dest_term left (bufsize - left),
                           Jpeg_destroy_compress]\<rparr>)"
proof -
  have m1: "app0_marker (replicate 60 0) = [0x41, 0x56, 0x49, 0x31, 0] @ replicate 55 0x20"
    by (rule app0_marker_eq) simp
  have m2: "com_marker ([0x41, 0x56, 0x49, 0x31, 0] @ replicate 55 0x20) = replicate 60 0"
    by (rule com_marker_eq) simp
  show ?thesis
    unfolding Compress_JPEG_def jpegmemdestmgr_build_def Let_def m1 m2 prod.case
      write_rows_eq [OF le0] jpeg_finish_compress_def jpegmemdestmgr_term_destination_def
    by (simp add: call_def)
qed

lemma decode_header_eq:
  "decode_header p s =
     s\<lparr>calls := calls s @ [Jpeg_read_header True] @
        (if has_huff_tables p then [] else [Std_huff_tables])\<rparr>"
  by (simp add: decode_header_def call_def)

lemma decode_rows_eq:
  "decode_rows p outBuffer s =
     (outBuffer + of_nat (unat (output_height p)) * ucast (output_width p * output_components p),
      s\<lparr>numbytes := numbytes s - bytes_in_buffer (src_at_finish p),
        calls := calls s @ [Jpeg_start_decompress] @
          map (\<lambda>y. Jpeg_read_scanlines
                     (outBuffer + of_nat y * ucast (output_width p * output_components p)) 1)
            [0..<unat (output_height p)] @
          [Jpeg_finish_decompress,
           Src_term (bytes_in_buffer (src_at_finish p))
             (numbytes s - bytes_in_buffer (src_at_finish p))]\<rparr>)"
  unfolding decode_rows_def Let_def read_rows_eq [OF le0] prod.case
    jpeg_finish_decompress_def jpegmemsrcmgr_term_source_def
  by (simp add: call_def)

lemma concat_map_Nil: "concat (map (\<lambda>y. []) xs) = []"
  by (induction xs) simp_all

lemma builds_append [simp]: "builds (xs @ ys) = builds xs @ builds ys"
  by (simp add: builds_def)

lemma terms_append [simp]: "terms (xs @ ys) = terms xs @ terms ys"
  by (simp add: terms_def)

lemma read_rows_of_append [simp]: "read_rows_of (xs @ ys) = read_rows_of xs @ read_rows_of ys"
  by (simp add: read_rows_of_def)

lemma written_rows_append [simp]: "written_rows (xs @ ys) = written_rows xs @ written_rows ys"
  by (simp add: written_rows_def)

lemma quality_calls_append [simp]: "quality_calls (xs @ ys) = quality_calls xs @ quality_calls ys"
  by (simp add: quality_calls_def)

lemma projections_Cons [simp]:
  "builds (c # cs) = build_of c @ builds cs"
  "terms (c # cs) = term_of c @ terms cs"
  "read_rows_of (c # cs) = read_row_of c @ read_rows_of cs"
  "written_rows (c # cs) = written_row_of c @ written_rows cs"
  "quality_calls (c # cs) = quality_of c @ quality_calls cs"
  "builds [] = []" "terms [] = []" "read_rows_of [] = []" "written_rows [] = []"
  "quality_calls [] = []"
  by (simp_all add: builds_def terms_def read_rows_of_def written_rows_def quality_calls_def)

lemma projections_read_scanlines [simp]:
  "builds (map (\<lambda>y. Jpeg_read_scanlines (f y) n) ys) = []"
  "terms (map (\<lambda>y. Jpeg_read_scanlines (f y) n) ys) = []"
  "read_rows_of (map (\<lambda>y. Jpeg_read_scanlines (f y) n) ys) = map f ys"
  by (induction ys) simp_all

lemma projections_write_scanlines [simp]:
  "builds (map (\<lambda>y. Jpeg_write_scanlines (f y) n) ys) = []"
  "terms (map (\<lambda>y. Jpeg_write_scanlines (f y) n) ys) = []"
  "quality_calls (map (\<lambda>y. Jpeg_write_scanlines (f y) n) ys) = []"
  "written_rows (map (\<lambda>y. Jpeg_write_scanlines (f y) n) ys) = map f ys"
  by (induction ys) simp_all

lemma calls_numbytes_update [simp]: "calls (s\<lparr>numbytes := n\<rparr>) = calls s"
  by simp

lemma Compress_JPEG_projections:
  "quality_calls (calls (Compress_JPEG enc q out inb w h bs s)) = quality_calls (calls s) @ [q]"
  "written_rows (calls (Compress_JPEG enc q out inb w h bs s)) =
     written_rows (calls s) @ map (\<lambda>y. inb + of_nat y * ucast (w * 3)) [0..<unat h]"
  "builds (calls (Compress_JPEG enc q out inb w h bs s)) = builds (calls s) @ [(out, bs)]"
  "terms (calls (Compress_JPEG enc q out inb w h bs s)) =
     terms (calls s) @ [(bs - numbytes (Compress_JPEG enc q out inb w h bs s),
                         numbytes (Compress_JPEG enc q out inb w h bs s))]"
  by (simp_all add: Compress_JPEG_eq Let_def)

section \<open>The field transform: round trip, row map and bounds\<close>

text \<open>
  C1 (amended). For every width \<open>\<ge> 0\<close> whose row stride \<open>width * 3\<close> fits an \<^verbatim>\<open>int\<close>,
  every even height \<open>\<ge> 0\<close> and every buffer \<open>X\<close> of \<open>height\<close> rows of \<open>width * 3\<close> bytes:
  deinterlacing \<open>X\<close> with field order 1 into a fresh buffer and interlacing the result into
  another fresh buffer gives back \<open>X\<close>; with field order 0 the same round trip gives \<open>X\<close> with
  the rows \<open>2k\<close> and \<open>2k + 1\<close> of every pair exchanged. \<^verbatim>\<open>interlace\<close> takes no field order
  and undoes the layout of field order 1 only.
\<close>

theorem field_round_trip:
  fixes width height :: c_int
  assumes g: "0 \<le> sint width" "3 * sint width \<le> INT_MAX" "0 \<le> sint height"
    and ev: "even (sint height)"
    and lx: "length X = nat (sint height) * nat (3 * sint width)"
    and l1: "length fresh1 = length X" and l2: "length fresh2 = length X"
  shows "(\<exists>split. deinterlace 1 fresh1 X width height = Inr split \<and>
            interlace fresh2 split width height = Inr X) \<and>
         (\<exists>split out. deinterlace 0 fresh1 X width height = Inr split \<and>
            interlace fresh2 split width height = Inr out \<and> length out = length X \<and>
            (\<forall>r < nat (sint height).
               row (nat (3 * sint width)) r out = row (nat (3 * sint width)) (pair_swap r) X))"
proof
  let ?h = "nat (sint height)"
  let ?rs = "nat (3 * sint width)"
  have evh: "even ?h" using ev g(3) by (simp add: even_nat_iff)
  have "(1 :: nat) < 2" "size_of_int (sint (1 :: c_int)) = 1" by (simp_all add: size_of_int_0_1)
  from round_trip_nth [OF g ev this lx l1 l2] obtain split out where
    d: "deinterlace 1 fresh1 X width height = Inr split" and
    i: "interlace fresh2 split width height = Inr out" and
    lo: "length out = length X" and
    eq: "\<forall>r < ?h. \<forall>r' < ?h. \<forall>c < ?rs.
           interlace_source ?h r = deinterlace_target 1 ?h r' \<longrightarrow>
           out ! (r * ?rs + c) = X ! (r' * ?rs + c)"
    by blast
  have "out ! k = X ! k" if k: "k < ?h * ?rs" for k
  proof -
    have pos: "0 < ?rs" using k by (cases "?rs") simp_all
    have r: "k div ?rs < ?h" using k pos by (simp add: less_mult_imp_div_less)
    have c: "k mod ?rs < ?rs" using pos by simp
    have "out ! (k div ?rs * ?rs + k mod ?rs) = X ! (k div ?rs * ?rs + k mod ?rs)"
      using eq r c interlace_source_odd_first by blast
    then show ?thesis by simp
  qed
  then have "out = X" using lo lx by (intro nth_equalityI) simp_all
  then show "\<exists>split. deinterlace 1 fresh1 X width height = Inr split \<and>
               interlace fresh2 split width height = Inr X"
    using d i by blast
next
  let ?h = "nat (sint height)"
  let ?rs = "nat (3 * sint width)"
  have evh: "even ?h" using ev g(3) by (simp add: even_nat_iff)
  have "(0 :: nat) < 2" "size_of_int (sint (0 :: c_int)) = 0" by (simp_all add: size_of_int_0_1)
  from round_trip_nth [OF g ev this lx l1 l2] obtain split out where
    d: "deinterlace 0 fresh1 X width height = Inr split" and
    i: "interlace fresh2 split width height = Inr out" and
    lo: "length out = length X" and
    eq: "\<forall>r < ?h. \<forall>r' < ?h. \<forall>c < ?rs.
           interlace_source ?h r = deinterlace_target 0 ?h r' \<longrightarrow>
           out ! (r * ?rs + c) = X ! (r' * ?rs + c)"
    by blast
  have "row ?rs r out = row ?rs (pair_swap r) X" if r: "r < ?h" for r
  proof (rule row_eqI [where h = "?h"])
    show "r < ?h" by (rule r)
    show sw: "pair_swap r < ?h" using evh r by (rule pair_swap_less)
    show "length out = ?h * ?rs" using lo lx by simp
    show "length X = ?h * ?rs" by (rule lx)
    fix c assume "c < ?rs"
    then show "out ! (r * ?rs + c) = X ! (pair_swap r * ?rs + c)"
      using eq r sw interlace_source_even_first by blast
  qed
  then show "\<exists>split out. deinterlace 0 fresh1 X width height = Inr split \<and>
               interlace fresh2 split width height = Inr out \<and> length out = length X \<and>
               (\<forall>r < ?h. row ?rs r out = row ?rs (pair_swap r) X)"
    using d i lo by blast
qed

theorem field_round_trip_witness:
  "(0 \<le> sint (1 :: c_int) \<and> 3 * sint (1 :: c_int) \<le> INT_MAX \<and> 0 \<le> sint (2 :: c_int) \<and>
    even (sint (2 :: c_int)) \<and>
    length [1, 2, 3, 4, 5, 6 :: uchar] = nat (sint (2 :: c_int)) * nat (3 * sint (1 :: c_int))) \<and>
   (\<exists>split. deinterlace 1 (replicate 6 0) [1, 2, 3, 4, 5, 6] 1 2 = Inr split \<and>
            interlace (replicate 6 0) split 1 2 = Inr [1, 2, 3, 4, 5, 6])"
  using field_round_trip [of 1 2 "[1, 2, 3, 4, 5, 6]" "replicate 6 0" "replicate 6 0"]
  by (simp add: INT_MAX_def)

text \<open>
  A frame of two rows of one pixel, deinterlaced with field order 0 and interlaced again,
  comes back with its two rows exchanged.
\<close>

theorem field_round_trip_even_first_counterexample:
  "deinterlace 0 (replicate 6 0) [1, 2, 3, 4, 5, 6] 1 2 = Inr [4, 5, 6, 1, 2, 3] \<and>
   interlace (replicate 6 0) [4, 5, 6, 1, 2, 3] 1 2 = Inr [4, 5, 6, 1, 2, 3] \<and>
   [4, 5, 6, 1, 2, 3] \<noteq> [1, 2, 3, 4, 5, 6 :: uchar]"
  by (simp add: deinterlace_def interlace_def int_mul_def int_wrap_def INT_MIN_def
        size_of_int_def SIZE_MOD_def deinterlace_loop.simps interlace_loop.simps memcpy_def
        size_mul_def size_add_def)

text \<open>
  Where the row stride fits an \<^verbatim>\<open>int\<close>, \<^verbatim>\<open>deinterlace\<close> returns a buffer in which output
  row \<open>deinterlace_target oddFirst height i\<close> holds input row \<open>i\<close>, for every \<open>i\<close> that no later
  row overwrites (with an even height none is overwritten), and every output row that is no
  target keeps its old bytes.
\<close>

lemma deinterlace_copies_rows:
  fixes width height oddf :: c_int
  assumes g: "0 \<le> sint width" "3 * sint width \<le> INT_MAX" "0 \<le> sint height"
    and lf: "length from = nat (sint height) * nat (3 * sint width)"
    and lt: "length to = length from"
  shows "\<exists>out. deinterlace oddf to from width height = Inr out \<and> length out = length to \<and>
           (\<forall>i < nat (sint height).
              (\<forall>j \<in> {i<..<nat (sint height)}.
                 deinterlace_target (size_of_int (sint oddf)) (nat (sint height)) j
                 \<noteq> deinterlace_target (size_of_int (sint oddf)) (nat (sint height)) i) \<longrightarrow>
              row (nat (3 * sint width))
                (deinterlace_target (size_of_int (sint oddf)) (nat (sint height)) i) out =
              row (nat (3 * sint width)) i from) \<and>
           (\<forall>r < nat (sint height).
              (\<forall>j < nat (sint height).
                 deinterlace_target (size_of_int (sint oddf)) (nat (sint height)) j \<noteq> r) \<longrightarrow>
              row (nat (3 * sint width)) r out = row (nat (3 * sint width)) r to)"
proof -
  let ?h = "nat (sint height)"
  let ?rs = "nat (3 * sint width)"
  let ?tgt = "deinterlace_target (size_of_int (sint oddf)) ?h"
  have lt': "length to = ?h * ?rs" using lt lf by simp
  from deinterlace_nth [OF g lf lt', of oddf] obtain out where
    d: "deinterlace oddf to from width height = Inr out" and
    lo: "length out = ?h * ?rs" and
    keep: "\<forall>k < ?h * ?rs. (\<forall>j \<in> {0..<?h}. ?tgt j \<noteq> k div ?rs) \<longrightarrow> out ! k = to ! k" and
    cp: "\<forall>j \<in> {0..<?h}. (\<forall>j' \<in> {j<..<?h}. ?tgt j' \<noteq> ?tgt j) \<longrightarrow>
           (\<forall>c < ?rs. out ! (?tgt j * ?rs + c) = from ! (j * ?rs + c))"
    by blast
  have A: "row ?rs (?tgt i) out = row ?rs i from"
    if i: "i < ?h" and last: "\<forall>j \<in> {i<..<?h}. ?tgt j \<noteq> ?tgt i" for i
  proof (rule row_eqI [where h = "?h"])
    show "?tgt i < ?h" using i by (rule deinterlace_target_less)
    show "i < ?h" by (rule i)
    show "length out = ?h * ?rs" by (rule lo)
    show "length from = ?h * ?rs" by (rule lf)
    fix c assume "c < ?rs"
    then show "out ! (?tgt i * ?rs + c) = from ! (i * ?rs + c)" using cp i last by simp
  qed
  have B: "row ?rs r out = row ?rs r to"
    if r: "r < ?h" and free: "\<forall>j < ?h. ?tgt j \<noteq> r" for r
  proof (rule row_eqI [where h = "?h"])
    show "r < ?h" "r < ?h" by (rule r)+
    show "length out = ?h * ?rs" by (rule lo)
    show "length to = ?h * ?rs" by (rule lt')
    fix c assume c: "c < ?rs"
    have k: "r * ?rs + c < ?h * ?rs" using r c by (rule row_cell_less)
    have "(r * ?rs + c) div ?rs = r" using c by (rule row_cell_div)
    then show "out ! (r * ?rs + c) = to ! (r * ?rs + c)" using keep k free by simp
  qed
  have "length out = length to" using lo lt' by simp
  then show ?thesis using d A B by (intro exI [of _ out]) simp
qed

text \<open>
  C6. \<^verbatim>\<open>deinterlace\<close> copies input row \<open>i\<close> to output row \<open>i/2 + height/2\<close> when \<open>i mod 2\<close> is
  the field order and to output row \<open>i/2\<close> otherwise, for every width \<open>\<ge> 0\<close>. The source computes
  \<^verbatim>\<open>rowstride = width * 3\<close> on \<^verbatim>\<open>int\<close> operands: at width 715827883 the product
  2147483649 leaves the type and wraps to \<open>-2147483647\<close>, and the first copy of a frame of
  two rows leaves the two buffers of \<open>2 * 715827883 * 3\<close> bytes instead of copying a row.
\<close>

theorem deinterlace_row_stride_overflow:
  "int_mul (sint (715827883 :: c_int)) 3 = - 2147483647 \<and>
   deinterlace 1 (replicate 4294967298 0) (replicate 4294967298 0) 715827883 2 =
     Inl Out_of_bounds"
  by (simp add: deinterlace_def int_mul_def int_wrap_def INT_MIN_def size_of_int_def SIZE_MOD_def
        deinterlace_loop.simps memcpy_def size_mul_def size_add_def)

text \<open>
  Where the row stride fits an \<^verbatim>\<open>int\<close>, every row index of the two loops lies below the
  height, for odd heights too, and both transforms run to their end without leaving the
  buffers.
\<close>

lemma field_transforms_in_bounds:
  fixes width height oddf :: c_int
  assumes g: "0 \<le> sint width" "3 * sint width \<le> INT_MAX" "0 \<le> sint height"
    and lf: "length from = nat (sint height) * nat (3 * sint width)"
    and lt: "length to = length from"
  shows "(\<forall>i < nat (sint height).
            i div 2 < nat (sint height) \<and> i div 2 + nat (sint height) div 2 < nat (sint height)) \<and>
         (\<exists>out. interlace to from width height = Inr out \<and> length out = length to) \<and>
         (\<exists>out. deinterlace oddf to from width height = Inr out \<and> length out = length to)"
proof -
  have lt': "length to = nat (sint height) * nat (3 * sint width)" using lt lf by simp
  have "i div 2 < h \<and> i div 2 + h div 2 < h" if "i < h" for i h :: nat
    using that by linarith
  moreover have "\<exists>out. interlace to from width height = Inr out \<and> length out = length to"
    using interlace_nth [OF g lf lt'] lt' by auto
  moreover have "\<exists>out. deinterlace oddf to from width height = Inr out \<and> length out = length to"
    using deinterlace_nth [OF g lf lt', of oddf] lt' by auto
  ultimately show ?thesis by blast
qed

text \<open>
  C10. Every per-row copy of \<^verbatim>\<open>interlace\<close> and \<^verbatim>\<open>deinterlace\<close> stays within the
  \<open>height * width * 3\<close> bytes of its buffers, for every width \<open>\<ge> 0\<close> and height \<open>\<ge> 0\<close>. The
  row indices do; the byte count of a copy is \<^verbatim>\<open>width * 3\<close> computed on \<^verbatim>\<open>int\<close>, and at
  width 715827883 and height 2 it is \<open>2 ^ 64 - 2147483647\<close> as a \<^verbatim>\<open>size_t\<close>: the first copy
  of \<^verbatim>\<open>interlace\<close> leaves both buffers.
\<close>

theorem interlace_row_stride_overflow:
  "size_of_int (int_mul (sint (715827883 :: c_int)) 3) = 18446744071562067969 \<and>
   interlace (replicate 4294967298 0) (replicate 4294967298 0) 715827883 2 =
     Inl Out_of_bounds"
  by (simp add: interlace_def int_mul_def int_wrap_def INT_MIN_def size_of_int_def SIZE_MOD_def
        interlace_loop.simps memcpy_def size_mul_def size_add_def)

section \<open>The callbacks of the source adapter\<close>

text \<open>
  C5. Whenever \<^verbatim>\<open>jpegmemsrcmgr_fill_input_buffer\<close> is called, it moves the input cursor
  back by 2 bytes, writes \<open>0xFF\<close> and \<open>0xD9\<close> into those 2 bytes and nowhere else, sets the
  count of remaining bytes to 2, hands one warning (and no fatal error) to the error
  manager, and returns true.
\<close>

theorem fill_input_buffer_synthetic_eoi:
  "jpegmemsrcmgr_fill_input_buffer s =
     (True,
      s\<lparr>memory := (memory s)(next_input_byte (src s) - 2 := 0xFF,
                                next_input_byte (src s) - 1 := 0xD9),
        src := \<lparr>next_input_byte = next_input_byte (src s) - 2, bytes_in_buffer = 2\<rparr>,
        reports := reports s @ [Warning JWRN_JPEG_EOF]\<rparr>)"
  by (simp add: jpegmemsrcmgr_fill_input_buffer_def WARNMS_def JPEG_EOI_def Let_def)

text \<open>
  C7 (amended). For every skip count that is not negative and every state of the source
  manager, \<^verbatim>\<open>jpegmemsrcmgr_skip_input_data\<close> advances the cursor by exactly
  \<open>min requested remaining\<close> bytes and lowers the count of remaining bytes by the same
  amount.
\<close>

theorem skip_input_data_min:
  fixes skip_count :: c_long
  assumes "0 \<le> sint skip_count"
  shows "next_input_byte (jpegmemsrcmgr_skip_input_data sm skip_count) =
           next_input_byte sm + word_of_int (min (sint skip_count) (uint (bytes_in_buffer sm))) \<and>
         uint (bytes_in_buffer (jpegmemsrcmgr_skip_input_data sm skip_count)) =
           uint (bytes_in_buffer sm) - min (sint skip_count) (uint (bytes_in_buffer sm))"
proof -
  have su: "sint skip_count = uint skip_count" using assms by (rule sint_nonneg_uint)
  show ?thesis
  proof (cases "bytes_in_buffer sm < skip_count")
    case True
    then have "uint (bytes_in_buffer sm) < uint skip_count" by (simp add: word_less_def)
    then have "min (sint skip_count) (uint (bytes_in_buffer sm)) = uint (bytes_in_buffer sm)"
      using su by simp
    then show ?thesis using True
      by (simp add: jpegmemsrcmgr_skip_input_data_def Let_def)
  next
    case False
    then have le: "uint skip_count \<le> uint (bytes_in_buffer sm)"
      by (simp add: word_less_def)
    then have m: "min (sint skip_count) (uint (bytes_in_buffer sm)) = uint skip_count"
      using su by simp
    have "uint (bytes_in_buffer sm - skip_count) = uint (bytes_in_buffer sm) - uint skip_count"
      using le by (simp add: uint_sub_if_size)
    then show ?thesis using False m
      by (simp add: jpegmemsrcmgr_skip_input_data_def Let_def)
  qed
qed

theorem skip_input_data_min_witness:
  "0 \<le> sint (7 :: c_long) \<and>
   jpegmemsrcmgr_skip_input_data \<lparr>next_input_byte = 10, bytes_in_buffer = 5\<rparr> 7 =
     \<lparr>next_input_byte = 15, bytes_in_buffer = 0\<rparr>"
  using skip_input_data_min [of 7 "\<lparr>next_input_byte = 10, bytes_in_buffer = 5\<rparr>"]
  by (simp add: jpegmemsrcmgr_skip_input_data_def)

text \<open>
  With 5 bytes remaining and a count of \<open>-1\<close>, the unsigned comparison takes the count for
  a huge one: the cursor moves forward by 5 and nothing remains, where the minimum of
  \<open>-1\<close> and 5 would move it back by 1.
\<close>

theorem skip_input_data_negative_count:
  "next_input_byte
     (jpegmemsrcmgr_skip_input_data \<lparr>next_input_byte = 10, bytes_in_buffer = 5\<rparr> (- 1)) = 15 \<and>
   bytes_in_buffer
     (jpegmemsrcmgr_skip_input_data \<lparr>next_input_byte = 10, bytes_in_buffer = 5\<rparr> (- 1)) = 0 \<and>
   (10 :: addr) + word_of_int (min (sint (- 1 :: c_long)) (uint (5 :: size_t))) = 9"
  by (simp add: jpegmemsrcmgr_skip_input_data_def)

section \<open>The compression pipeline\<close>

text \<open>
  C8. Every run of \<^verbatim>\<open>Compress_JPEG\<close> hands to the codec, right after starting the
  compression, an application marker of 60 bytes that are \<open>A\<close>, \<open>V\<close>, \<open>I\<close>, \<open>1\<close>, a zero byte
  and 55 spaces, and right after it a comment marker of 60 zero bytes.
\<close>

theorem compress_markers_after_start:
  "\<exists>post. calls (Compress_JPEG enc quality outbuffer inBuffer width height bufsize s) =
     calls s @
     [Jpeg_create_compress, Dest_build outbuffer bufsize,
      Cinfo_image width height 3 JCS_RGB, Jpeg_set_defaults,
      Jpeg_set_colorspace JCS_YCbCr, Jpeg_set_quality quality True,
      Cinfo_sent_tables True True True True, Cinfo_components 0 1 1 2,
      Cinfo_write_JFIF_header False, Jpeg_start_compress False,
      Jpeg_write_marker JPEG_APP0 (map of_char ''AVI1'' @ [0] @ replicate 55 0x20) 60,
      Jpeg_write_marker JPEG_COM (replicate 60 0) 60] @ post"
  by (simp add: Compress_JPEG_eq Let_def)

section \<open>The decode pipeline and the counter\<close>

text \<open>
  C2. \<^verbatim>\<open>Decode_JPEG\<close> returns 0 when the output height reported for the first stream is
  at least the requested height, having built one source adapter. Otherwise it builds a
  second source adapter at the input address advanced by the counter left by the first
  teardown (the capacity minus the bytes remaining), over the remaining capacity, reads
  the rows of the second pass from the address where the rows of the first pass end, and
  returns 1.
\<close>

theorem decode_one_or_two_passes:
  "(let p1 = codec 0 \<lparr>next_input_byte = inBuffer, bytes_in_buffer = bufsize\<rparr>;
        left1 = bytes_in_buffer (src_at_finish p1);
        consumed = bufsize - left1;
        p2 = codec 1 \<lparr>next_input_byte = inBuffer + consumed,
                         bytes_in_buffer = bufsize - consumed\<rparr>;
        rows1 = map (\<lambda>y. outBuffer + of_nat y * ucast (output_width p1 * output_components p1))
                  [0..<unat (output_height p1)];
        end1 = outBuffer + of_nat (unat (output_height p1))
                           * ucast (output_width p1 * output_components p1);
        rows2 = map (\<lambda>y. end1 + of_nat y * ucast (output_width p2 * output_components p2))
                  [0..<unat (output_height p2)];
        result = Decode_JPEG codec inBuffer outBuffer width height bufsize s0
    in fst result = (if height \<le> output_height p1 then 0 else 1) \<and>
       builds (calls (snd result)) =
         builds (calls s0) @
         (if height \<le> output_height p1 then [(inBuffer, bufsize)]
          else [(inBuffer, bufsize), (inBuffer + consumed, bufsize - consumed)]) \<and>
       take 1 (drop (length (terms (calls s0))) (terms (calls (snd result)))) =
         [(left1, consumed)] \<and>
       read_rows_of (calls (snd result)) =
         read_rows_of (calls s0) @
         (if height \<le> output_height p1 then rows1 else rows1 @ rows2))"
  by (simp add: Decode_JPEG_def jpegmemsrcmgr_build_def decode_header_eq decode_rows_eq
        Let_def call_def)

theorem decode_one_or_two_passes_witness:
  "fst (Decode_JPEG sample_decoder 1000 5000 4 2 100 \<lparr>numbytes = 0, calls = []\<rparr>) = 1 \<and>
   builds (calls (snd (Decode_JPEG sample_decoder 1000 5000 4 2 100
                         \<lparr>numbytes = 0, calls = []\<rparr>))) =
     [(1000, 100), (1040, 60)] \<and>
   read_rows_of (calls (snd (Decode_JPEG sample_decoder 1000 5000 4 2 100
                               \<lparr>numbytes = 0, calls = []\<rparr>))) =
     [5000, 5012]"
  using decode_one_or_two_passes
    [of sample_decoder 1000 100 5000 4 2 "\<lparr>numbytes = 0, calls = []\<rparr>"]
  by (simp add: Let_def word_le_nat_alt sample_decoder_def)

text \<open>
  The counter at the teardown of a destination adapter, and of the first source adapter
  of a decode, is the capacity the adapter was built with minus the bytes left in it.
\<close>

lemma first_source_adapter_counter:
  "take 1 (drop (length (terms (calls s0)))
             (terms (calls (snd (Decode_JPEG codec inBuffer outBuffer width height bufsize s0))))) =
     [(bytes_in_buffer (src_at_finish
          (codec 0 \<lparr>next_input_byte = inBuffer, bytes_in_buffer = bufsize\<rparr>)),
       bufsize - bytes_in_buffer (src_at_finish
          (codec 0 \<lparr>next_input_byte = inBuffer, bytes_in_buffer = bufsize\<rparr>)))]"
  by (simp add: Decode_JPEG_def jpegmemsrcmgr_build_def decode_header_eq decode_rows_eq
        Let_def call_def)

lemma destination_adapter_counter:
  "\<exists>left. builds (calls (Compress_JPEG enc quality outbuffer inBuffer width height bufsize s)) =
            builds (calls s) @ [(outbuffer, bufsize)] \<and>
          terms (calls (Compress_JPEG enc quality outbuffer inBuffer width height bufsize s)) =
            terms (calls s) @ [(left, bufsize - left)] \<and>
          numbytes (Compress_JPEG enc quality outbuffer inBuffer width height bufsize s) =
            bufsize - left"
  by (simp add: Compress_JPEG_eq Let_def)

text \<open>
  C4. At the teardown of every adapter the counter is the capacity of the wrapped buffer
  minus the bytes remaining, also for the second source adapter of a two-field decode.
  \<^verbatim>\<open>Decode_JPEG\<close> assigns \<^verbatim>\<open>numbytes = 0\<close> after building that second adapter: on a
  buffer of 100 bytes whose first stream takes 40 and whose second takes 50, the second
  adapter has capacity 60 and 10 bytes left at its teardown, and the counter is
  \<open>0 - 10\<close> modulo \<open>2 ^ 64\<close>, not 50.
\<close>

theorem second_source_adapter_counter:
  "builds (calls (snd (Decode_JPEG sample_decoder 1000 5000 4 2 100
                         \<lparr>numbytes = 0, calls = []\<rparr>))) =
     [(1000, 100), (1040, 60)] \<and>
   terms (calls (snd (Decode_JPEG sample_decoder 1000 5000 4 2 100
                        \<lparr>numbytes = 0, calls = []\<rparr>))) =
     [(60, 40), (10, 18446744073709551606)] \<and>
   numbytes (snd (Decode_JPEG sample_decoder 1000 5000 4 2 100
                    \<lparr>numbytes = 0, calls = []\<rparr>)) = 18446744073709551606 \<and>
   (60 :: size_t) - 10 = 50"
  by (simp add: Decode_JPEG_def jpegmemsrcmgr_build_def decode_header_eq decode_rows_eq
        Let_def call_def word_le_nat_alt sample_decoder_def)

section \<open>The encode entry point on a frame\<close>

lemma to_mjpeg_interlaced:
  assumes "interlace_flag movie \<noteq> 0" "alloc1 = Some (a1, z1)" "alloc2 = Some (a2, z2)"
    and "deinterlace (odd_fields movie) z1 X (Width movie) (Height movie) = Inr d"
  shows "avi_converter_to_mjpeg enc alloc1 alloc2 movie (a0, X) bufsize s0 =
     (let q = int_div (Quality movie) 100;
          half = int_div (Height movie) 2;
          s1 = Compress_JPEG enc q a2 a1 (Width movie) half (bufsize div 2) (s0\<lparr>numbytes := 0\<rparr>);
          s2 = Compress_JPEG enc q (a2 + numbytes s1)
                 (a1 + scast half * scast (Width movie) * 3)
                 (Width movie) half (bufsize div 2) (s1\<lparr>numbytes := 0\<rparr>)
      in Inr \<lparr>returned = Some a2, size_out = numbytes s1 + numbytes s2, pixels = (a1, d),
               final = s2\<rparr>)"
  using assms by (simp add: avi_converter_to_mjpeg_def Let_def)

lemmas field_eval =
  deinterlace_def interlace_def int_mul_def int_wrap_def INT_MAX_def INT_MIN_def size_of_int_def
  SIZE_MOD_def deinterlace_loop.simps interlace_loop.simps memcpy_def size_mul_def size_add_def

text \<open>
  C3 (amended). For every interlaced frame whose two pixel buffers are allocated and whose
  row stride \<open>width * 3\<close> fits an \<^verbatim>\<open>int\<close>, \<^verbatim>\<open>avi_converter_to_mjpeg\<close> deinterlaces the
  source buffer, runs \<^verbatim>\<open>Compress_JPEG\<close> on the first \<open>height/2\<close> rows with the output at the
  start of the new buffer, takes the counter as the first byte count, runs
  \<^verbatim>\<open>Compress_JPEG\<close> again on the next \<open>height/2\<close> rows (all the remaining rows when the
  height is even) with the output at the offset of the first byte count, and leaves the
  sum of the two byte counts in \<^verbatim>\<open>*size\<close>.
\<close>

theorem interlaced_encode_two_fields:
  assumes flag: "interlace_flag movie \<noteq> 0"
    and al: "alloc1 = Some (a1, z1)" "alloc2 = Some (a2, z2)"
    and g: "0 \<le> sint (Width movie)" "3 * sint (Width movie) \<le> INT_MAX"
           "0 \<le> sint (Height movie)"
    and lx: "length X = nat (sint (Height movie)) * nat (3 * sint (Width movie))"
    and lz: "length z1 = length X"
  shows "\<exists>d. deinterlace (odd_fields movie) z1 X (Width movie) (Height movie) = Inr d \<and>
     (let h = nat (sint (Height movie));
          rs = nat (3 * sint (Width movie));
          q = int_div (Quality movie) 100;
          half = int_div (Height movie) 2;
          s1 = Compress_JPEG enc q a2 a1 (Width movie) half (bufsize div 2)
                 (s0\<lparr>numbytes := 0\<rparr>);
          n1 = numbytes s1;
          s2 = Compress_JPEG enc q (a2 + n1) (a1 + of_nat (h div 2 * rs)) (Width movie) half
                 (bufsize div 2) (s1\<lparr>numbytes := 0\<rparr>);
          n2 = numbytes s2
      in avi_converter_to_mjpeg enc alloc1 alloc2 movie (a0, X) bufsize s0 =
           Inr \<lparr>returned = Some a2, size_out = n1 + n2, pixels = (a1, d), final = s2\<rparr> \<and>
         unat half = h div 2 \<and>
         builds (calls s2) =
           builds (calls s0) @ [(a2, bufsize div 2), (a2 + n1, bufsize div 2)] \<and>
         terms (calls s2) =
           terms (calls s0) @ [(bufsize div 2 - n1, n1), (bufsize div 2 - n2, n2)] \<and>
         written_rows (calls s2) =
           written_rows (calls s0) @
           map (\<lambda>y. a1 + of_nat (y * rs)) [0..<h div 2] @
           map (\<lambda>y. a1 + of_nat ((h div 2 + y) * rs)) [0..<h div 2])"
proof -
  let ?h = "nat (sint (Height movie))"
  let ?rs = "nat (3 * sint (Width movie))"
  have lz': "length z1 = ?h * ?rs" using lz lx by simp
  from deinterlace_nth [OF g lx lz', of "odd_fields movie"] obtain d where
    d: "deinterlace (odd_fields movie) z1 X (Width movie) (Height movie) = Inr d"
    by blast
  have half: "unat (int_div (Height movie) 2) = ?h div 2"
    and shalf: "(scast (int_div (Height movie) 2) :: size_t) = of_nat (?h div 2)"
    using int_div_2 [OF g(3)] by simp_all
  have sw: "(scast (Width movie) :: size_t) = of_nat (nat (sint (Width movie)))"
    using g(1) by (rule c_int_scast)
  have rs: "(ucast (Width movie * 3) :: size_t) = of_nat ?rs"
    using g(1,2) by (rule row_stride_word)
  have off: "(scast (int_div (Height movie) 2) :: size_t) * scast (Width movie) * 3 =
             of_nat (?h div 2 * ?rs)"
    unfolding shalf sw using g(1) by (simp add: nat_mult_distrib mult.commute mult.left_commute)
  have r1: "(of_nat y :: size_t) * of_nat ?rs = of_nat (y * ?rs)" for y by simp
  have r2: "(of_nat (?h div 2 * ?rs) :: size_t) + of_nat (y * ?rs) =
            of_nat ((?h div 2 + y) * ?rs)" for y
    by (simp add: distrib_right)
  show ?thesis
    apply (rule exI [of _ d])
    apply (rule conjI [OF d])
    unfolding Let_def to_mjpeg_interlaced [OF flag al d] off
    by (simp add: Compress_JPEG_projections half rs r1 r2 del: of_nat_mult of_nat_add)
qed

theorem interlaced_encode_two_fields_witness:
  "(interlace_flag \<lparr>Width = 1, Height = 2, Quality = 9000, interlace_flag = 1, odd_fields = 1\<rparr> \<noteq> 0 \<and>
    3 * sint (1 :: c_int) \<le> INT_MAX \<and>
    length [1, 2, 3, 4, 5, 6 :: uchar] = nat (sint (2 :: c_int)) * nat (3 * sint (1 :: c_int))) \<and>
   map_sum id size_out
     (avi_converter_to_mjpeg sample_encoder (Some (1000, replicate 6 0)) (Some (2000, replicate 6 0))
        \<lparr>Width = 1, Height = 2, Quality = 9000, interlace_flag = 1, odd_fields = 1\<rparr>
        (3000, [1, 2, 3, 4, 5, 6]) 100 \<lparr>numbytes = 0, calls = []\<rparr>) = Inr 40 \<and>
   map_sum id (written_rows \<circ> calls \<circ> final)
     (avi_converter_to_mjpeg sample_encoder (Some (1000, replicate 6 0)) (Some (2000, replicate 6 0))
        \<lparr>Width = 1, Height = 2, Quality = 9000, interlace_flag = 1, odd_fields = 1\<rparr>
        (3000, [1, 2, 3, 4, 5, 6]) 100 \<lparr>numbytes = 0, calls = []\<rparr>) = Inr [1000, 1003]"
  using interlaced_encode_two_fields
    [where movie = "\<lparr>Width = 1, Height = 2, Quality = 9000, interlace_flag = 1, odd_fields = 1\<rparr>"
       and ?alloc1.0 = "Some (1000, replicate 6 0)" and ?a1.0 = 1000 and ?z1.0 = "replicate 6 0"
       and ?alloc2.0 = "Some (2000, replicate 6 0)" and ?a2.0 = 2000 and ?z2.0 = "replicate 6 0"
       and X = "[1, 2, 3, 4, 5, 6]" and enc = sample_encoder and bufsize = 100
       and ?s0.0 = "\<lparr>numbytes = 0, calls = []\<rparr>" and ?a0.0 = 3000]
  by (simp add: field_eval avi_converter_to_mjpeg_def int_div_def Let_def Compress_JPEG_eq
        sample_encoder_def)

text \<open>
  A frame of three rows: the rows at offsets 0 and 3 are compressed, one in each run, and
  the row at offset 6 is not, although two rows remain after the first \<open>height/2\<close>.
\<close>

theorem interlaced_encode_odd_height_counterexample:
  "map_sum id (written_rows \<circ> calls \<circ> final)
     (avi_converter_to_mjpeg sample_encoder (Some (1000, replicate 9 0)) (Some (2000, replicate 9 0))
        \<lparr>Width = 1, Height = 3, Quality = 9000, interlace_flag = 1, odd_fields = 1\<rparr>
        (3000, [1, 2, 3, 4, 5, 6, 7, 8, 9]) 100 \<lparr>numbytes = 0, calls = []\<rparr>) =
     Inr [1000, 1003] \<and>
   (3 :: nat) - 3 div 2 = 2"
  by (simp add: field_eval avi_converter_to_mjpeg_def int_div_def Let_def Compress_JPEG_eq
        sample_encoder_def)

text \<open>
  C9. For every quality \<open>q\<close> from 0 to 10000 in the descriptor, every quality that
  \<^verbatim>\<open>avi_converter_to_mjpeg\<close> passes to the codec is \<open>q / 100\<close> truncated: once for a
  progressive frame, twice for an interlaced one.
\<close>

theorem quality_divided_by_100:
  assumes q: "0 \<le> sint (Quality movie)" "sint (Quality movie) \<le> 10000"
    and r: "avi_converter_to_mjpeg enc alloc1 alloc2 movie buffer bufsize s0 = Inr r"
  shows "quality_calls (calls (final r)) =
           quality_calls (calls s0) @
           replicate (if returned r = None then 0 else if interlace_flag movie = 0 then 1 else 2)
             (word_of_int (sint (Quality movie) div 100)) \<and>
         sint (word_of_int (sint (Quality movie) div 100) :: c_int) = sint (Quality movie) div 100 \<and>
         sint (Quality movie) sdiv 100 = sint (Quality movie) div 100"
proof -
  note Q = quality_value [OF q]
  have "quality_calls (calls (final r)) =
           quality_calls (calls s0) @
           replicate (if returned r = None then 0 else if interlace_flag movie = 0 then 1 else 2)
             (word_of_int (sint (Quality movie) div 100))"
    using r unfolding avi_converter_to_mjpeg_def Let_def Q(1)
    by (auto simp: Compress_JPEG_projections numeral_2_eq_2
             split: option.splits if_splits sum.splits)
  then show ?thesis using Q(2,3) by simp
qed

theorem quality_divided_by_100_witness:
  "(0 \<le> sint (Quality \<lparr>Width = 1, Height = 2, Quality = 9999, interlace_flag = 1, odd_fields = 1\<rparr>) \<and>
    sint (Quality \<lparr>Width = 1, Height = 2, Quality = 9999, interlace_flag = 1, odd_fields = 1\<rparr>) \<le> 10000) \<and>
   map_sum id (quality_calls \<circ> calls \<circ> final)
     (avi_converter_to_mjpeg sample_encoder (Some (1000, replicate 6 0)) (Some (2000, replicate 6 0))
        \<lparr>Width = 1, Height = 2, Quality = 9999, interlace_flag = 1, odd_fields = 1\<rparr>
        (3000, [1, 2, 3, 4, 5, 6]) 100 \<lparr>numbytes = 0, calls = []\<rparr>) = Inr [99, 99]"
  using quality_divided_by_100
    [where movie = "\<lparr>Width = 1, Height = 2, Quality = 9999, interlace_flag = 1, odd_fields = 1\<rparr>"
       and ?alloc1.0 = "Some (1000, replicate 6 0)" and ?alloc2.0 = "Some (2000, replicate 6 0)"
       and buffer = "(3000, [1, 2, 3, 4, 5, 6])" and enc = sample_encoder and bufsize = 100
       and ?s0.0 = "\<lparr>numbytes = 0, calls = []\<rparr>"]
  by (simp add: field_eval avi_converter_to_mjpeg_def int_div_def Let_def Compress_JPEG_eq
        sample_encoder_def)

end
